theory Spec2Isabelle
  imports Main "HOL-Library.Word" "HOL-Library.Code_Target_Nat"
begin

chapter \<open>The node editing modal of the JSON graph viewer\<close>

text \<open>
  This theory embeds \<^verbatim>\<open>src/features/modals/NodeModal/index.tsx\<close>: the row normaliser
  \<^verbatim>\<open>normalizeNodeData\<close>, the path formatter \<^verbatim>\<open>jsonPathToString\<close>, the value coercer
  \<^verbatim>\<open>parseValue\<close>, the seeding of the edit form and the patch applicator \<^verbatim>\<open>applyEdits\<close>.

  The component is TypeScript and leans on the language: \<^verbatim>\<open>JSON.parse\<close>,
  \<^verbatim>\<open>JSON.stringify\<close>, property reads with optional chaining, property assignment in strict
  mode code (the file is an ES module), template literals and \<^verbatim>\<open>String(...)\<close>. The first
  sections model that part of ECMAScript over the values a JSON document can hold; the
  later sections translate the functions of the file line by line.

  Three conventions hold throughout.
  \<^item> A JavaScript string is a list of 16-bit code units.
  \<^item> An expression either yields a value, throws, or has an outcome that only the
    built-in objects of the host decide (a property found on a prototype, the
    \<^verbatim>\<open>__proto__\<close> accessor, a string converted to an array length). The last is the
    completion \<open>HostDefined\<close>: the model then says nothing about the run.
  \<^item> A number is an exact decimal \<open>m \<times> 10\<^sup>e\<close>. The host rounds to binary64; the two
    agree on every literal of at most 15 significant digits within the binary64 range.
\<close>

section \<open>Strings\<close>

type_synonym unit16 = "16 word"

type_synonym jsstring = "unit16 list"

definition str :: "string \<Rightarrow> jsstring" where
  "str s = map of_char s"

text \<open>Joining with a separator, as \<^verbatim>\<open>Array.prototype.join\<close> does on strings.\<close>

fun join :: "jsstring \<Rightarrow> jsstring list \<Rightarrow> jsstring" where
  "join sep [] = []"
| "join sep [x] = x"
| "join sep (x # y # ys) = x @ sep @ join sep (y # ys)"

definition unlines :: "string list \<Rightarrow> jsstring" where
  "unlines ls = join [0x0A] (map str ls)"

section \<open>Numbers\<close>

text \<open>\<open>Dec m e\<close> is the number \<open>m \<times> 10\<^sup>e\<close>; \<open>norm_dec\<close> strips the trailing zeros of the
  mantissa, so that equal numbers are equal terms.\<close>

datatype jsnum = Dec int int

function norm_dec :: "int \<Rightarrow> int \<Rightarrow> jsnum" where
  "norm_dec m e =
     (if m = 0 then Dec 0 0
      else if m mod 10 = 0 then norm_dec (m div 10) (e + 1)
      else Dec m e)"
  by pat_completeness auto
termination
  by (relation "measure (\<lambda>(m, e). nat \<bar>m\<bar>)") auto

declare norm_dec.simps [simp del]

definition num_of_nat :: "nat \<Rightarrow> jsnum" where
  "num_of_nat n = norm_dec (int n) 0"

definition is_digit :: "unit16 \<Rightarrow> bool" where
  "is_digit c = (0x30 \<le> c \<and> c \<le> 0x39)"

definition digit_char :: "nat \<Rightarrow> unit16" where
  "digit_char d = of_nat (48 + d)"

definition digit_val :: "unit16 \<Rightarrow> nat" where
  "digit_val c = unat c - 48"

fun digits :: "nat \<Rightarrow> nat list" where
  "digits n = (if n < 10 then [n] else digits (n div 10) @ [n mod 10])"

declare digits.simps [simp del]

definition show_nat :: "nat \<Rightarrow> jsstring" where
  "show_nat n = map digit_char (digits n)"

definition read_digits :: "jsstring \<Rightarrow> nat" where
  "read_digits cs = foldl (\<lambda>a c. 10 * a + digit_val c) 0 cs"

text \<open>\<^verbatim>\<open>Number::toString\<close> (ECMA-262, 6.1.6.1.20) in radix 10: with \<open>k\<close> the number of
  digits of the mantissa and \<open>n = e + k\<close>, plain digits up to \<open>10\<^sup>2\<^sup>1\<close>, a decimal point
  inside or after \<^verbatim>\<open>0.\<close> down to \<open>10\<^sup>-\<^sup>6\<close>, and exponent notation otherwise.\<close>

definition Number_toString :: "jsnum \<Rightarrow> jsstring" where
  "Number_toString x =
     (case x of Dec m e \<Rightarrow>
        if m = 0 then str ''0''
        else
          let s = show_nat (nat \<bar>m\<bar>);
              k = int (length s);
              n = e + k;
              sign = (if m < 0 then str ''-'' else [])
          in sign @
            (if k \<le> n \<and> n \<le> 21 then s @ replicate (nat (n - k)) 0x30
             else if 0 < n \<and> n \<le> 21 then take (nat n) s @ str ''.'' @ drop (nat n) s
             else if -6 < n \<and> n \<le> 0 then str ''0.'' @ replicate (nat (- n)) 0x30 @ s
             else
               let ex = n - 1;
                   es = (if ex < 0 then str ''-'' else str ''+'') @ show_nat (nat \<bar>ex\<bar>)
               in if k = 1 then s @ str ''e'' @ es
                  else take 1 s @ str ''.'' @ drop 1 s @ str ''e'' @ es))"

section \<open>Values\<close>

text \<open>
  The values a parsed document and its working copy hold. An array carries its elements
  and the string-keyed properties that an assignment such as \<^verbatim>\<open>a["x"] = 1\<close> adds to it; a
  hole of an array is the element \<open>JUndefined\<close>. The properties of an object are kept in
  the order in which the host enumerates them.
\<close>

datatype jsval =
    JUndefined
  | JNull
  | JBool bool
  | JNum jsnum
  | JStr jsstring
  | JArr "jsval list" "(jsstring \<times> jsval) list"
  | JObj "(jsstring \<times> jsval) list"

type_synonym props = "(jsstring \<times> jsval) list"

datatype error = SyntaxError | TypeError | RangeError

datatype 'a completion = Normal 'a | Throw error | HostDefined

text \<open>A canonical numeric string denotes an integer index; below \<open>2\<^sup>3\<^sup>2 - 1\<close> it is an
  array index (ECMA-262, 6.1.7).\<close>

definition canonical_index :: "jsstring \<Rightarrow> nat option" where
  "canonical_index k =
     (if k \<noteq> [] \<and> list_all is_digit k \<and> (k = [0x30] \<or> hd k \<noteq> 0x30)
      then Some (read_digits k) else None)"

definition array_index :: "jsstring \<Rightarrow> nat option" where
  "array_index k =
     (case canonical_index k of
        Some i \<Rightarrow> if int i < 2 ^ 32 - 1 then Some i else None
      | None \<Rightarrow> None)"

text \<open>Own properties of an ordinary object. A new property whose key is an array index
  goes among the index keys in ascending order, any other key goes last; an existing
  property keeps its place (\<^verbatim>\<open>OrdinaryOwnPropertyKeys\<close>).\<close>

fun has_own :: "jsstring \<Rightarrow> props \<Rightarrow> bool" where
  "has_own k [] = False"
| "has_own k ((k', v) # ps) = (k = k' \<or> has_own k ps)"

fun replace_own :: "jsstring \<Rightarrow> jsval \<Rightarrow> props \<Rightarrow> props" where
  "replace_own k v [] = []"
| "replace_own k v ((k', x) # ps) =
     (if k = k' then (k', v) # ps else (k', x) # replace_own k v ps)"

fun insert_index :: "nat \<Rightarrow> jsstring \<Rightarrow> jsval \<Rightarrow> props \<Rightarrow> props" where
  "insert_index i k v [] = [(k, v)]"
| "insert_index i k v ((k', x) # ps) =
     (case array_index k' of
        None \<Rightarrow> (k, v) # (k', x) # ps
      | Some j \<Rightarrow> if i < j then (k, v) # (k', x) # ps else (k', x) # insert_index i k v ps)"

definition define_own :: "jsstring \<Rightarrow> jsval \<Rightarrow> props \<Rightarrow> props" where
  "define_own k v ps =
     (if has_own k ps then replace_own k v ps
      else case array_index k of
             Some i \<Rightarrow> insert_index i k v ps
           | None \<Rightarrow> ps @ [(k, v)])"

section \<open>JSON.stringify\<close>

text \<open>\<^verbatim>\<open>QuoteJSONString\<close> (ECMA-262, 25.5.2.3): the two-character escapes, \<^verbatim>\<open>\uXXXX\<close> in
  lower case for the other control characters and for a surrogate that is not part of a
  pair, everything else as it is.\<close>

definition hex_digit :: "nat \<Rightarrow> unit16" where
  "hex_digit d = (if d < 10 then of_nat (48 + d) else of_nat (87 + d))"

definition unicode_escape :: "unit16 \<Rightarrow> jsstring" where
  "unicode_escape c =
     (let n = unat c
      in [0x5C, 0x75, hex_digit (n div 4096), hex_digit (n div 256 mod 16),
          hex_digit (n div 16 mod 16), hex_digit (n mod 16)])"

definition is_lead :: "unit16 \<Rightarrow> bool" where
  "is_lead c = (0xD800 \<le> c \<and> c \<le> 0xDBFF)"

definition is_trail :: "unit16 \<Rightarrow> bool" where
  "is_trail c = (0xDC00 \<le> c \<and> c \<le> 0xDFFF)"

definition quote_unit :: "unit16 \<Rightarrow> jsstring" where
  "quote_unit c =
     (if c = 0x08 then [0x5C, 0x62]
      else if c = 0x09 then [0x5C, 0x74]
      else if c = 0x0A then [0x5C, 0x6E]
      else if c = 0x0C then [0x5C, 0x66]
      else if c = 0x0D then [0x5C, 0x72]
      else if c = 0x22 then [0x5C, 0x22]
      else if c = 0x5C then [0x5C, 0x5C]
      else if c < 0x20 \<or> is_lead c \<or> is_trail c then unicode_escape c
      else [c])"

fun quote_units :: "jsstring \<Rightarrow> jsstring" where
  "quote_units [] = []"
| "quote_units [c] = quote_unit c"
| "quote_units (c # d # cs) =
     (if is_lead c \<and> is_trail d then c # d # quote_units cs
      else quote_unit c @ quote_units (d # cs))"

definition QuoteJSONString :: "jsstring \<Rightarrow> jsstring" where
  "QuoteJSONString s = [0x22] @ quote_units s @ [0x22]"

text \<open>\<^verbatim>\<open>JSON.stringify(v, null, 2)\<close>: \<^verbatim>\<open>SerializeJSONProperty\<close>, \<^verbatim>\<open>SerializeJSONArray\<close> and
  \<^verbatim>\<open>SerializeJSONObject\<close> with the gap of two spaces; \<open>ind\<close> is the current indentation.
  \<^verbatim>\<open>undefined\<close> has no serialisation: it is \<^verbatim>\<open>null\<close> as an array element and left out as
  a property. The extra properties of an array are not serialised.\<close>

definition gap :: jsstring where
  "gap = str ''  ''"

fun SerializeJSONProperty :: "jsstring \<Rightarrow> jsval \<Rightarrow> jsstring option"
and SerializeJSONArray :: "jsstring \<Rightarrow> jsval list \<Rightarrow> jsstring list"
and SerializeJSONObject :: "jsstring \<Rightarrow> props \<Rightarrow> jsstring list"
where
  "SerializeJSONProperty ind JUndefined = None"
| "SerializeJSONProperty ind JNull = Some (str ''null'')"
| "SerializeJSONProperty ind (JBool b) = Some (if b then str ''true'' else str ''false'')"
| "SerializeJSONProperty ind (JNum n) = Some (Number_toString n)"
| "SerializeJSONProperty ind (JStr s) = Some (QuoteJSONString s)"
| "SerializeJSONProperty ind (JArr xs ps) =
     Some (case SerializeJSONArray (ind @ gap) xs of
             [] \<Rightarrow> str ''[]''
           | parts \<Rightarrow> str ''['' @ [0x0A] @ ind @ gap
                        @ join (str '','' @ [0x0A] @ ind @ gap) parts
                        @ [0x0A] @ ind @ str '']'')"
| "SerializeJSONProperty ind (JObj ps) =
     Some (case SerializeJSONObject (ind @ gap) ps of
             [] \<Rightarrow> str ''{}''
           | parts \<Rightarrow> str ''{'' @ [0x0A] @ ind @ gap
                        @ join (str '','' @ [0x0A] @ ind @ gap) parts
                        @ [0x0A] @ ind @ str ''}'')"
| "SerializeJSONArray ind [] = []"
| "SerializeJSONArray ind (x # xs) =
     (case SerializeJSONProperty ind x of None \<Rightarrow> str ''null'' | Some s \<Rightarrow> s)
       # SerializeJSONArray ind xs"
| "SerializeJSONObject ind [] = []"
| "SerializeJSONObject ind ((k, v) # ps) =
     (case SerializeJSONProperty ind v of
        None \<Rightarrow> SerializeJSONObject ind ps
      | Some s \<Rightarrow> (QuoteJSONString k @ str '': '' @ s) # SerializeJSONObject ind ps)"

definition JSON_stringify :: "jsval \<Rightarrow> jsstring option" where
  "JSON_stringify v = SerializeJSONProperty [] v"

section \<open>JSON.parse\<close>

text \<open>The JSON grammar of ECMA-404. A number literal is \<^verbatim>\<open>-? (0 | [1-9][0-9]*)
  (. [0-9]+)? ([eE] [+-]? [0-9]+)?\<close>.\<close>

definition parse_int_part :: "jsstring \<Rightarrow> (jsstring \<times> jsstring) option" where
  "parse_int_part cs =
     (case cs of
        [] \<Rightarrow> None
      | c # r \<Rightarrow>
          if c = 0x30 then Some ([c], r)
          else if is_digit c then Some (takeWhile is_digit cs, dropWhile is_digit cs)
          else None)"

definition parse_fraction :: "jsstring \<Rightarrow> (jsstring \<times> jsstring) option" where
  "parse_fraction cs =
     (case cs of
        [] \<Rightarrow> Some ([], cs)
      | c # r \<Rightarrow>
          if c = 0x2E then
            (let ds = takeWhile is_digit r
             in if ds = [] then None else Some (ds, dropWhile is_digit r))
          else Some ([], cs))"

definition parse_exponent :: "jsstring \<Rightarrow> (int \<times> jsstring) option" where
  "parse_exponent cs =
     (case cs of
        [] \<Rightarrow> Some (0, cs)
      | c # r \<Rightarrow>
          if c = 0x65 \<or> c = 0x45 then
            (let (neg, r1) = (case r of
                                [] \<Rightarrow> (False, r)
                              | s # r' \<Rightarrow> if s = 0x2D then (True, r')
                                          else if s = 0x2B then (False, r') else (False, r));
                 ds = takeWhile is_digit r1
             in if ds = [] then None
                else Some ((if neg then - int (read_digits ds) else int (read_digits ds)),
                           dropWhile is_digit r1))
          else Some (0, cs))"

definition parse_number :: "jsstring \<Rightarrow> (jsnum \<times> jsstring) option" where
  "parse_number cs =
     (let (neg, cs1) = (case cs of
                          [] \<Rightarrow> (False, cs)
                        | c # r \<Rightarrow> if c = 0x2D then (True, r) else (False, cs))
      in case parse_int_part cs1 of
           None \<Rightarrow> None
         | Some (ip, cs2) \<Rightarrow>
             (case parse_fraction cs2 of
                None \<Rightarrow> None
              | Some (fp, cs3) \<Rightarrow>
                  (case parse_exponent cs3 of
                     None \<Rightarrow> None
                   | Some (ex, cs4) \<Rightarrow>
                       let m = int (read_digits (ip @ fp))
                       in Some (norm_dec (if neg then - m else m) (ex - int (length fp)), cs4))))"

text \<open>A string literal after its opening quote: no control character, the escapes
  \<^verbatim>\<open>\" \\ \/ \b \f \n \r \t\<close> and \<^verbatim>\<open>\uXXXX\<close> with hexadecimal digits of either case.\<close>

definition hex_val :: "unit16 \<Rightarrow> nat option" where
  "hex_val c =
     (if 0x30 \<le> c \<and> c \<le> 0x39 then Some (unat c - 48)
      else if 0x61 \<le> c \<and> c \<le> 0x66 then Some (unat c - 87)
      else if 0x41 \<le> c \<and> c \<le> 0x46 then Some (unat c - 55)
      else None)"

definition hex4 :: "unit16 \<Rightarrow> unit16 \<Rightarrow> unit16 \<Rightarrow> unit16 \<Rightarrow> unit16 option" where
  "hex4 a b c d =
     (case (hex_val a, hex_val b, hex_val c, hex_val d) of
        (Some w, Some x, Some y, Some z) \<Rightarrow> Some (of_nat (((w * 16 + x) * 16 + y) * 16 + z))
      | _ \<Rightarrow> None)"

definition unescape :: "unit16 \<Rightarrow> unit16 option" where
  "unescape e =
     (if e = 0x22 then Some 0x22
      else if e = 0x5C then Some 0x5C
      else if e = 0x2F then Some 0x2F
      else if e = 0x62 then Some 0x08
      else if e = 0x66 then Some 0x0C
      else if e = 0x6E then Some 0x0A
      else if e = 0x72 then Some 0x0D
      else if e = 0x74 then Some 0x09
      else None)"

fun parse_chars :: "jsstring \<Rightarrow> (jsstring \<times> jsstring) option" where
  "parse_chars [] = None"
| "parse_chars (c # cs) =
     (if c = 0x22 then Some ([], cs)
      else if c = 0x5C then
        (case cs of
           [] \<Rightarrow> None
         | e # r \<Rightarrow>
             if e = 0x75 then
               (case r of
                  a # b # c' # d # r' \<Rightarrow>
                    (case hex4 a b c' d of
                       None \<Rightarrow> None
                     | Some u \<Rightarrow> map_option (\<lambda>(s, rest). (u # s, rest)) (parse_chars r'))
                | _ \<Rightarrow> None)
             else
               (case unescape e of
                  None \<Rightarrow> None
                | Some u \<Rightarrow> map_option (\<lambda>(s, rest). (u # s, rest)) (parse_chars r)))
      else if c < 0x20 then None
      else map_option (\<lambda>(s, rest). (c # s, rest)) (parse_chars cs))"

definition is_ws :: "unit16 \<Rightarrow> bool" where
  "is_ws c = (c = 0x20 \<or> c = 0x09 \<or> c = 0x0A \<or> c = 0x0D)"

definition skip_ws :: "jsstring \<Rightarrow> jsstring" where
  "skip_ws cs = dropWhile is_ws cs"

definition parse_literal :: "jsstring \<Rightarrow> jsval \<Rightarrow> jsstring \<Rightarrow> (jsval \<times> jsstring) option" where
  "parse_literal w v cs = (if take (length w) cs = w then Some (v, drop (length w) cs) else None)"

text \<open>
  A value, the elements of an array after the first bracket and the members of an object
  after the first brace, each returning the rest of the text. The first argument bounds
  the number of calls; every call but the first follows a consumed character, so the
  length of the text is bound enough (\<open>parse_value_fuel\<close> below). The members of an object
  are defined in text order with \<open>define_own\<close>: of two members with one key the later
  value stands at the earlier place.
\<close>

fun parse_value :: "nat \<Rightarrow> jsstring \<Rightarrow> (jsval \<times> jsstring) option"
and parse_elements :: "nat \<Rightarrow> jsval list \<Rightarrow> jsstring \<Rightarrow> (jsval \<times> jsstring) option"
and parse_members :: "nat \<Rightarrow> props \<Rightarrow> jsstring \<Rightarrow> (jsval \<times> jsstring) option"
where
  "parse_value n [] = None"
| "parse_value 0 (c # cs) = None"
| "parse_value (Suc n) (c # cs) =
     (if c = 0x7B then
        (case skip_ws cs of
           [] \<Rightarrow> None
         | d # r \<Rightarrow> if d = 0x7D then Some (JObj [], r) else parse_members n [] (d # r))
      else if c = 0x5B then
        (case skip_ws cs of
           [] \<Rightarrow> None
         | d # r \<Rightarrow> if d = 0x5D then Some (JArr [] [], r) else parse_elements n [] (d # r))
      else if c = 0x22 then
        (case parse_chars cs of None \<Rightarrow> None | Some (s, r) \<Rightarrow> Some (JStr s, r))
      else if c = 0x74 then parse_literal (str ''true'') (JBool True) (c # cs)
      else if c = 0x66 then parse_literal (str ''false'') (JBool False) (c # cs)
      else if c = 0x6E then parse_literal (str ''null'') JNull (c # cs)
      else (case parse_number (c # cs) of None \<Rightarrow> None | Some (x, r) \<Rightarrow> Some (JNum x, r)))"
| "parse_elements n acc cs =
     (case parse_value n cs of
        None \<Rightarrow> None
      | Some (v, r) \<Rightarrow>
          (case skip_ws r of
             [] \<Rightarrow> None
           | d # r' \<Rightarrow>
               if d = 0x5D then Some (JArr (acc @ [v]) [], r')
               else if d = 0x2C then
                 (case n of 0 \<Rightarrow> None | Suc m \<Rightarrow> parse_elements m (acc @ [v]) (skip_ws r'))
               else None))"
| "parse_members n acc cs =
     (case cs of
        [] \<Rightarrow> None
      | q # cs1 \<Rightarrow>
          if q \<noteq> 0x22 then None
          else
            (case parse_chars cs1 of
               None \<Rightarrow> None
             | Some (k, r) \<Rightarrow>
                 (case skip_ws r of
                    [] \<Rightarrow> None
                  | d # r1 \<Rightarrow>
                      if d \<noteq> 0x3A then None
                      else
                        (case parse_value n (skip_ws r1) of
                           None \<Rightarrow> None
                         | Some (v, r2) \<Rightarrow>
                             (case skip_ws r2 of
                                [] \<Rightarrow> None
                              | d' # r3 \<Rightarrow>
                                  if d' = 0x7D then Some (JObj (define_own k v acc), r3)
                                  else if d' = 0x2C then
                                    (case n of
                                       0 \<Rightarrow> None
                                     | Suc m \<Rightarrow> parse_members m (define_own k v acc) (skip_ws r3))
                                  else None)))))"

definition JSON_parse :: "jsstring \<Rightarrow> jsval completion" where
  "JSON_parse t =
     (case parse_value (length t) (skip_ws t) of
        None \<Rightarrow> Throw SyntaxError
      | Some (v, r) \<Rightarrow> if skip_ws r = [] then Normal v else Throw SyntaxError)"

section \<open>Reading and assigning properties\<close>

text \<open>
  Which names a value inherits from the prototypes of the host is a table of the host;
  it is a parameter of the model (\<open>h t k\<close>: a value of type \<open>t\<close> inherits a property named
  \<open>k\<close>). Reading such a property yields a built-in function or object, about which the
  model says nothing.
\<close>

datatype jstype = TBoolean | TNumber | TString | TArray | TObject

type_synonym host = "jstype \<Rightarrow> jsstring \<Rightarrow> bool"

definition inherited :: "host \<Rightarrow> jstype \<Rightarrow> jsstring \<Rightarrow> jsval completion" where
  "inherited h t k = (if h t k then HostDefined else Normal JUndefined)"

text \<open>\<^verbatim>\<open>acc?.[key]\<close>: \<^verbatim>\<open>undefined\<close> on \<^verbatim>\<open>undefined\<close> and \<^verbatim>\<open>null\<close>, otherwise the own
  property (a member of an object; an element, the length or an extra property of an
  array; a character or the length of a string) or else what the prototypes hold.\<close>

fun Get :: "host \<Rightarrow> jsval \<Rightarrow> jsstring \<Rightarrow> jsval completion" where
  "Get h JUndefined k = Normal JUndefined"
| "Get h JNull k = Normal JUndefined"
| "Get h (JBool b) k = inherited h TBoolean k"
| "Get h (JNum n) k = inherited h TNumber k"
| "Get h (JStr s) k =
     (if k = str ''length'' then Normal (JNum (num_of_nat (length s)))
      else case canonical_index k of
             Some i \<Rightarrow> if i < length s then Normal (JStr [s ! i]) else inherited h TString k
           | None \<Rightarrow> inherited h TString k)"
| "Get h (JArr xs ps) k =
     (if k = str ''length'' then Normal (JNum (num_of_nat (length xs)))
      else case array_index k of
             Some i \<Rightarrow>
               if i < length xs \<and> xs ! i \<noteq> JUndefined then Normal (xs ! i)
               else inherited h TArray k
           | None \<Rightarrow>
               (case map_of ps k of Some v \<Rightarrow> Normal v | None \<Rightarrow> inherited h TArray k))"
| "Get h (JObj ps) k =
     (case map_of ps k of Some v \<Rightarrow> Normal v | None \<Rightarrow> inherited h TObject k)"

text \<open>The length a value denotes when it is assigned to the \<^verbatim>\<open>length\<close> of an array
  (\<^verbatim>\<open>ArraySetLength\<close>, ECMA-262, 10.4.2.4): \<^verbatim>\<open>ToUint32\<close> and \<^verbatim>\<open>ToNumber\<close> of the value must
  agree, or a \<^verbatim>\<open>RangeError\<close> is thrown. The conversion of a string, an array or an object
  to a number is left to the host.\<close>

definition to_length :: "jsval \<Rightarrow> nat completion" where
  "to_length v =
     (case v of
        JUndefined \<Rightarrow> Throw RangeError
      | JNull \<Rightarrow> Normal 0
      | JBool b \<Rightarrow> Normal (if b then 1 else 0)
      | JNum (Dec m e) \<Rightarrow>
          if m = 0 then Normal 0
          else if 0 < m \<and> 0 \<le> e \<and> e \<le> 9 \<and> m * 10 ^ nat e < 2 ^ 32
          then Normal (nat (m * 10 ^ nat e))
          else Throw RangeError
      | _ \<Rightarrow> HostDefined)"

definition ArraySetLength :: "jsval list \<Rightarrow> jsval \<Rightarrow> jsval list completion" where
  "ArraySetLength xs v =
     (case to_length v of
        Normal n \<Rightarrow>
          Normal (if n \<le> length xs then take n xs
                  else xs @ replicate (n - length xs) JUndefined)
      | Throw e \<Rightarrow> Throw e
      | HostDefined \<Rightarrow> HostDefined)"

definition proto_key :: jsstring where
  "proto_key = str ''__proto__''"

text \<open>
  \<^verbatim>\<open>base[key] = v\<close> in strict mode code; the result is the base after the assignment.
  \<^item> On an object: the own property is replaced or a new one is defined.
  \<^item> On an array: an array index writes that element, growing the array with holes; the
    key \<^verbatim>\<open>length\<close> resizes it; any other key is an extra property.
  \<^item> On \<^verbatim>\<open>undefined\<close> and \<^verbatim>\<open>null\<close> a \<^verbatim>\<open>TypeError\<close> is thrown, and on a boolean, a number
    and a string too (strict mode).
  \<^item> The key \<^verbatim>\<open>__proto__\<close>, where it is not an own property, reaches the accessor of
    \<^verbatim>\<open>Object.prototype\<close>: left to the host.
\<close>

fun Set :: "jsval \<Rightarrow> jsstring \<Rightarrow> jsval \<Rightarrow> jsval completion" where
  "Set (JObj ps) k v =
     (if \<not> has_own k ps \<and> k = proto_key then HostDefined
      else Normal (JObj (define_own k v ps)))"
| "Set (JArr xs ps) k v =
     (case array_index k of
        Some i \<Rightarrow>
          Normal (JArr (if i < length xs then xs[i := v]
                        else xs @ replicate (i - length xs) JUndefined @ [v]) ps)
      | None \<Rightarrow>
          if k = str ''length'' then
            (case ArraySetLength xs v of
               Normal xs' \<Rightarrow> Normal (JArr xs' ps)
             | Throw e \<Rightarrow> Throw e
             | HostDefined \<Rightarrow> HostDefined)
          else if \<not> has_own k ps \<and> k = proto_key then HostDefined
          else Normal (JArr xs (define_own k v ps)))"
| "Set JUndefined k v = Throw TypeError"
| "Set JNull k v = Throw TypeError"
| "Set prim k v = (if k = proto_key then HostDefined else Throw TypeError)"

text \<open>The object or array that a walk over own members and elements has reached is a
  part of the document: an assignment to it shows in the document at that place.
  \<open>update_at v ks new\<close> is \<open>v\<close> with the part at the keys \<open>ks\<close> replaced by \<open>new\<close>.\<close>

fun update_at :: "jsval \<Rightarrow> jsstring list \<Rightarrow> jsval \<Rightarrow> jsval" where
  "update_at v [] new = new"
| "update_at (JObj ps) (k # ks) new =
     JObj (map (\<lambda>(k', x). if k' = k then (k', update_at x ks new) else (k', x)) ps)"
| "update_at (JArr xs ps) (k # ks) new =
     (case array_index k of
        Some i \<Rightarrow>
          if i < length xs then JArr (xs[i := update_at (xs ! i) ks new]) ps else JArr xs ps
      | None \<Rightarrow> JArr xs ps)"
| "update_at v (k # ks) new = v"

text \<open>\<^verbatim>\<open>ToString\<close>, as \<^verbatim>\<open>String(v)\<close> and a template literal apply it. An array is the
  join of its elements with a comma, \<^verbatim>\<open>undefined\<close> and \<^verbatim>\<open>null\<close> being empty; an object is
  \<^verbatim>\<open>[object Object]\<close>. An own property named \<^verbatim>\<open>toString\<close> holds data, not a function, and
  then no conversion is left: \<^verbatim>\<open>TypeError\<close>.\<close>

fun ToString :: "jsval \<Rightarrow> jsstring completion"
and ToString_elements :: "jsval list \<Rightarrow> jsstring list completion"
where
  "ToString JUndefined = Normal (str ''undefined'')"
| "ToString JNull = Normal (str ''null'')"
| "ToString (JBool b) = Normal (if b then str ''true'' else str ''false'')"
| "ToString (JNum n) = Normal (Number_toString n)"
| "ToString (JStr s) = Normal s"
| "ToString (JArr xs ps) =
     (if has_own (str ''toString'') ps then Throw TypeError
      else if has_own (str ''join'') ps then Normal (str ''[object Array]'')
      else case ToString_elements xs of
             Normal parts \<Rightarrow> Normal (join (str '','') parts)
           | Throw e \<Rightarrow> Throw e
           | HostDefined \<Rightarrow> HostDefined)"
| "ToString (JObj ps) =
     (if has_own (str ''toString'') ps then Throw TypeError
      else Normal (str ''[object Object]''))"
| "ToString_elements [] = Normal []"
| "ToString_elements (x # xs) =
     (case (if x = JUndefined \<or> x = JNull then Normal [] else ToString x) of
        Normal s \<Rightarrow>
          (case ToString_elements xs of
             Normal parts \<Rightarrow> Normal (s # parts)
           | Throw e \<Rightarrow> Throw e
           | HostDefined \<Rightarrow> HostDefined)
      | Throw e \<Rightarrow> Throw e
      | HostDefined \<Rightarrow> HostDefined)"

section \<open>The data of the component\<close>

text \<open>
  Modelled from the spec: the declarations of \<^verbatim>\<open>NodeData\<close>, its rows and its path
  (\<^verbatim>\<open>types/graph\<close>) are not among the sources. A row is \<^verbatim>\<open>{key, value, type}\<close> with
  \<^verbatim>\<open>key: string | null\<close> and a JSON value; the file compares \<^verbatim>\<open>type\<close> with the strings
  \<^verbatim>\<open>"array"\<close> and \<^verbatim>\<open>"object"\<close> only, every other type is a scalar row. A path segment is a
  string or an array index; the path of a node may be absent.
\<close>

record NodeRow =
  rkey :: "jsstring option"
  rvalue :: jsval
  rtype :: jsstring

datatype seg = Index "32 word" | Key jsstring

record NodeData =
  ntext :: "NodeRow list"
  npath :: "seg list option"

text \<open>The form state of the modal, \<^verbatim>\<open>Array<{ key: string | null; value: string }>\<close>.\<close>

record FormField =
  fkey :: "jsstring option"
  fvalue :: jsstring

text \<open>What \<^verbatim>\<open>applyEdits\<close> reads and writes: the text of the document store
  (\<^verbatim>\<open>getJson\<close>, \<^verbatim>\<open>setJson\<close>), the contents of the file store (\<^verbatim>\<open>setContents\<close>), the edit
  mode of the modal, whether \<^verbatim>\<open>onClose\<close> was called, and the alerts shown. A text may be
  \<^verbatim>\<open>undefined\<close>.\<close>

record State =
  json :: "jsstring option"
  contents :: "jsstring option"
  editMode :: bool
  closed :: bool
  alerts :: "error list"

definition setJson :: "jsstring option \<Rightarrow> State \<Rightarrow> State" where
  "setJson s st = st\<lparr>json := s\<rparr>"

definition setContents :: "jsstring option \<Rightarrow> State \<Rightarrow> State" where
  "setContents s st = st\<lparr>contents := s\<rparr>"

definition setEditMode :: "bool \<Rightarrow> State \<Rightarrow> State" where
  "setEditMode b st = st\<lparr>editMode := b\<rparr>"

definition onClose :: "State \<Rightarrow> State" where
  "onClose st = st\<lparr>closed := True\<rparr>"

definition alert :: "error \<Rightarrow> State \<Rightarrow> State" where
  "alert e st = st\<lparr>alerts := alerts st @ [e]\<rparr>"

section \<open>normalizeNodeData\<close>

text \<open>
  \<^verbatim>\<open>if (!nodeRows || nodeRows.length === 0) return "{}";
  if (nodeRows.length === 1 && !nodeRows[0].key) return `${nodeRows[0].value}`;
  const obj = {};
  nodeRows?.forEach(row => {
    if (row.type !== "array" && row.type !== "object") {
      if (row.key) obj[row.key] = row.value;
    }
  });
  return JSON.stringify(obj, null, 2);\<close>
  A key is falsy when it is \<^verbatim>\<open>null\<close> or the empty string.
\<close>

definition is_scalar_row :: "NodeRow \<Rightarrow> bool" where
  "is_scalar_row row = (rtype row \<noteq> str ''array'' \<and> rtype row \<noteq> str ''object'')"

fun forEach_row :: "NodeRow list \<Rightarrow> jsval \<Rightarrow> jsval completion" where
  "forEach_row [] obj = Normal obj"
| "forEach_row (row # rows) obj =
     (if is_scalar_row row then
        (case rkey row of
           None \<Rightarrow> forEach_row rows obj
         | Some k \<Rightarrow>
             if k = [] then forEach_row rows obj
             else (case Set obj k (rvalue row) of
                     Normal obj' \<Rightarrow> forEach_row rows obj'
                   | Throw e \<Rightarrow> Throw e
                   | HostDefined \<Rightarrow> HostDefined))
      else forEach_row rows obj)"

definition normalizeNodeData :: "NodeRow list \<Rightarrow> jsstring option completion" where
  "normalizeNodeData nodeRows =
     (if length nodeRows = 0 then Normal (Some (str ''{}''))
      else if length nodeRows = 1 \<and> (rkey (nodeRows ! 0) = None \<or> rkey (nodeRows ! 0) = Some [])
      then (case ToString (rvalue (nodeRows ! 0)) of
              Normal s \<Rightarrow> Normal (Some s)
            | Throw e \<Rightarrow> Throw e
            | HostDefined \<Rightarrow> HostDefined)
      else (case forEach_row nodeRows (JObj []) of
              Normal obj \<Rightarrow> Normal (JSON_stringify obj)
            | Throw e \<Rightarrow> Throw e
            | HostDefined \<Rightarrow> HostDefined))"

section \<open>jsonPathToString\<close>

text \<open>
  \<^verbatim>\<open>if (!path || path.length === 0) return "$";
  const segments = path.map(seg => (typeof seg === "number" ? seg : `"${seg}"`));
  return `$[${segments.join("][")}]`;\<close>
  The join converts a number with \<^verbatim>\<open>ToString\<close>.
\<close>

definition segment_text :: "seg \<Rightarrow> jsstring" where
  "segment_text s =
     (case s of
        Index i \<Rightarrow> Number_toString (num_of_nat (unat i))
      | Key k \<Rightarrow> [0x22] @ k @ [0x22])"

definition jsonPathToString :: "seg list option \<Rightarrow> jsstring" where
  "jsonPathToString path =
     (case path of
        None \<Rightarrow> str ''$''
      | Some p \<Rightarrow>
          if length p = 0 then str ''$''
          else str ''$['' @ join (str '']['') (map segment_text p) @ str '']'')"

section \<open>The form state\<close>



section \<open>parseValue\<close>

text \<open>\<^verbatim>\<open>try { return JSON.parse(val); } catch (e) { return val; }\<close>\<close>

definition parseValue :: "jsstring \<Rightarrow> jsval" where
  "parseValue val = (case JSON_parse val of Normal v \<Rightarrow> v | _ \<Rightarrow> JStr val)"

section \<open>applyEdits\<close>

text \<open>The key of a path segment (\<^verbatim>\<open>ToPropertyKey\<close>) and the walk
  \<^verbatim>\<open>path.reduce((acc, seg) => acc?.[seg], parsed)\<close>.\<close>

fun ToPropertyKey :: "seg \<Rightarrow> jsstring" where
  "ToPropertyKey (Index i) = Number_toString (num_of_nat (unat i))"
| "ToPropertyKey (Key s) = s"

fun reduce_get :: "host \<Rightarrow> jsval completion \<Rightarrow> seg list \<Rightarrow> jsval completion" where
  "reduce_get h acc [] = acc"
| "reduce_get h (Normal v) (s # ss) = reduce_get h (Get h v (ToPropertyKey s)) ss"
| "reduce_get h (Throw e) (s # ss) = Throw e"
| "reduce_get h HostDefined (s # ss) = HostDefined"

text \<open>\<^verbatim>\<open>(nodeData?.text?.length === 1 && nodeData?.text[0].key == null) ?? false\<close>\<close>

definition isSingleUnnamed :: "NodeData option \<Rightarrow> bool" where
  "isSingleUnnamed nodeData =
     (case nodeData of
        None \<Rightarrow> False
      | Some d \<Rightarrow> length (ntext d) = 1 \<and> rkey (ntext d ! 0) = None)"

text \<open>\<^verbatim>\<open>formState.forEach(f => { if (f.key) target[f.key] = parseValue(f.value); });\<close>\<close>

fun forEach_field :: "FormField list \<Rightarrow> jsval \<Rightarrow> jsval completion" where
  "forEach_field [] target = Normal target"
| "forEach_field (f # fs) target =
     (case fkey f of
        None \<Rightarrow> forEach_field fs target
      | Some k \<Rightarrow>
          if k = [] then forEach_field fs target
          else (case Set target k (parseValue (fvalue f)) of
                  Normal target' \<Rightarrow> forEach_field fs target'
                | Throw e \<Rightarrow> Throw e
                | HostDefined \<Rightarrow> HostDefined))"

text \<open>\<^verbatim>\<open>target && typeof target === "object"\<close>: an array or an object; \<^verbatim>\<open>null\<close> is falsy.\<close>

definition is_object :: "jsval \<Rightarrow> bool" where
  "is_object v = (case v of JArr xs ps \<Rightarrow> True | JObj ps \<Rightarrow> True | _ \<Rightarrow> False)"

text \<open>\<^verbatim>\<open>setJson(newJson); setContents({ contents: newJson });\<close> and the end of the
  \<^verbatim>\<open>try\<close> block, \<^verbatim>\<open>setEditMode(false); onClose?.();\<close>\<close>

definition write_back :: "jsstring option \<Rightarrow> State \<Rightarrow> State" where
  "write_back newJson st = setContents newJson (setJson newJson st)"

definition finish :: "State \<Rightarrow> State \<times> unit completion" where
  "finish st = (onClose (setEditMode False st), Normal ())"

text \<open>
  The \<^verbatim>\<open>try\<close> block of \<^verbatim>\<open>applyEdits\<close> (lines 61 to 104), returning the state it has
  reached and how it ended; every \<^verbatim>\<open>return\<close>, every exception and every write is a
  branch. The names are those of the source.
\<close>

definition applyEdits_try ::
  "host \<Rightarrow> NodeData option \<Rightarrow> FormField list \<Rightarrow> State \<Rightarrow> State \<times> unit completion" where
  "applyEdits_try h nodeData formState st =
     (case json st of
        None \<Rightarrow> (st, Normal ())
      | Some raw \<Rightarrow>
          if raw = [] then (st, Normal ())
          else
            (case JSON_parse raw of
               Throw e \<Rightarrow> (st, Throw e)
             | HostDefined \<Rightarrow> (st, HostDefined)
             | Normal parsed \<Rightarrow>
                 if parsed = JUndefined then (st, Normal ())
                 else
                   let path = (case nodeData of
                                 None \<Rightarrow> []
                               | Some d \<Rightarrow> (case npath d of None \<Rightarrow> [] | Some p \<Rightarrow> p));
                       parentPath = butlast path
                   in
                     (case reduce_get h (Normal parsed) parentPath of
                        Throw e \<Rightarrow> (st, Throw e)
                      | HostDefined \<Rightarrow> (st, HostDefined)
                      | Normal parent \<Rightarrow>
                          if isSingleUnnamed nodeData then
                            (let newVal = parseValue (case formState of
                                                        [] \<Rightarrow> []
                                                      | f # fs \<Rightarrow> fvalue f)
                             in if length path = 0 then
                                  finish (write_back (JSON_stringify newVal) st)
                                else if parent \<noteq> JUndefined then
                                  (case Set parent (ToPropertyKey (last path)) newVal of
                                     Throw e \<Rightarrow> (st, Throw e)
                                   | HostDefined \<Rightarrow> (st, HostDefined)
                                   | Normal parent' \<Rightarrow>
                                       finish (write_back
                                         (JSON_stringify
                                            (update_at parsed (map ToPropertyKey parentPath) parent'))
                                         st))
                                else finish st)
                          else
                            (case (if length path = 0 then Normal parsed
                                   else reduce_get h (Normal parsed) path) of
                               Throw e \<Rightarrow> (st, Throw e)
                             | HostDefined \<Rightarrow> (st, HostDefined)
                             | Normal target \<Rightarrow>
                                 if is_object target then
                                   (case forEach_field formState target of
                                      Throw e \<Rightarrow> (st, Throw e)
                                    | HostDefined \<Rightarrow> (st, HostDefined)
                                    | Normal target' \<Rightarrow>
                                        finish (write_back
                                          (JSON_stringify
                                             (update_at parsed (map ToPropertyKey path) target'))
                                          st))
                                 else finish st))))"

text \<open>\<^verbatim>\<open>try { ... } catch (err) { alert("Failed to apply edits: " + String(err)); }\<close>
  The alert is recorded by the kind of the error; its wording is the host's.\<close>

definition applyEdits ::
  "host \<Rightarrow> NodeData option \<Rightarrow> FormField list \<Rightarrow> State \<Rightarrow> State completion" where
  "applyEdits h nodeData formState st =
     (case applyEdits_try h nodeData formState st of
        (st', Normal u) \<Rightarrow> Normal st'
      | (st', Throw e) \<Rightarrow> Normal (alert e st')
      | (st', HostDefined) \<Rightarrow> HostDefined)"

section \<open>A host\<close>

text \<open>The property names of the built-in prototypes of ECMAScript 2023 (with Annex B),
  for the examples: every value inherits from \<^verbatim>\<open>Object.prototype\<close>, and a boolean, a
  number, a string and an array from the prototype of its own type first.\<close>

definition Object_prototype :: "string list" where
  "Object_prototype =
     [''constructor'', ''__defineGetter__'', ''__defineSetter__'', ''hasOwnProperty'',
      ''__lookupGetter__'', ''__lookupSetter__'', ''isPrototypeOf'', ''propertyIsEnumerable'',
      ''toString'', ''valueOf'', ''__proto__'', ''toLocaleString'']"

definition Boolean_prototype :: "string list" where
  "Boolean_prototype = [''constructor'', ''toString'', ''valueOf'']"

definition Number_prototype :: "string list" where
  "Number_prototype =
     [''constructor'', ''toExponential'', ''toFixed'', ''toLocaleString'', ''toPrecision'',
      ''toString'', ''valueOf'']"

definition String_prototype :: "string list" where
  "String_prototype =
     [''anchor'', ''at'', ''big'', ''blink'', ''bold'', ''charAt'', ''charCodeAt'',
      ''codePointAt'', ''concat'', ''constructor'', ''endsWith'', ''fixed'', ''fontcolor'',
      ''fontsize'', ''includes'', ''indexOf'', ''isWellFormed'', ''italics'', ''lastIndexOf'',
      ''link'', ''localeCompare'', ''match'', ''matchAll'', ''normalize'', ''padEnd'',
      ''padStart'', ''repeat'', ''replace'', ''replaceAll'', ''search'', ''slice'', ''small'',
      ''split'', ''startsWith'', ''strike'', ''sub'', ''substr'', ''substring'', ''sup'',
      ''toLocaleLowerCase'', ''toLocaleUpperCase'', ''toLowerCase'', ''toString'',
      ''toUpperCase'', ''toWellFormed'', ''trim'', ''trimEnd'', ''trimLeft'', ''trimRight'',
      ''trimStart'', ''valueOf'']"

definition Array_prototype :: "string list" where
  "Array_prototype =
     [''at'', ''concat'', ''constructor'', ''copyWithin'', ''entries'', ''every'', ''fill'',
      ''filter'', ''find'', ''findIndex'', ''findLast'', ''findLastIndex'', ''flat'',
      ''flatMap'', ''forEach'', ''includes'', ''indexOf'', ''join'', ''keys'', ''lastIndexOf'',
      ''map'', ''pop'', ''push'', ''reduce'', ''reduceRight'', ''reverse'', ''shift'', ''slice'',
      ''some'', ''sort'', ''splice'', ''toLocaleString'', ''toReversed'', ''toSorted'',
      ''toSpliced'', ''toString'', ''unshift'', ''values'', ''with'']"

definition es_host :: host where
  "es_host t k =
     List.member
       (map str
          ((case t of
              TBoolean \<Rightarrow> Boolean_prototype
            | TNumber \<Rightarrow> Number_prototype
            | TString \<Rightarrow> String_prototype
            | TArray \<Rightarrow> Array_prototype
            | TObject \<Rightarrow> []) @ Object_prototype))
       k"

section \<open>Notions of the specification\<close>

text \<open>The path of the selected node, \<^verbatim>\<open>nodeData?.path ?? []\<close>.\<close>

definition node_path :: "NodeData option \<Rightarrow> seg list" where
  "node_path nodeData =
     (case nodeData of
        None \<Rightarrow> []
      | Some d \<Rightarrow> (case npath d of None \<Rightarrow> [] | Some p \<Rightarrow> p))"


text \<open>States and nodes for the examples: a modal in edit mode over a document text, and
  a node of one unnamed scalar row.\<close>

definition st_of :: "jsstring \<Rightarrow> State" where
  "st_of t = \<lparr>json = Some t, contents = Some t, editMode = True, closed = False, alerts = []\<rparr>"


text \<open>The rendering of one path segment that the specification describes (4.2): the
  segment in brackets, an index as its decimal digits, a string between double quotes.\<close>

definition bracketed :: "seg \<Rightarrow> jsstring" where
  "bracketed s =
     (case s of
        Index i \<Rightarrow> str ''['' @ show_nat (unat i) @ str '']''
      | Key k \<Rightarrow> str ''[\"'' @ k @ str ''\"]'')"

text \<open>
  What a patch has done to its target. \<open>last_field fs k\<close> is the value of the last form
  entry whose key is \<open>k\<close>, keys that are \<^verbatim>\<open>null\<close> or empty aside. The target is
  \<open>patched\<close> when every key reads as the coercion of its last entry, and as before where
  it has no entry; the \<^verbatim>\<open>length\<close> of an array, which grows with its elements, is not
  compared. \<open>committed doc st\<close> is the state after a successful save of \<open>doc\<close>.
\<close>

fun last_field :: "FormField list \<Rightarrow> jsstring \<Rightarrow> jsstring option" where
  "last_field [] k = None"
| "last_field (f # fs) k =
     (case last_field fs k of
        Some v \<Rightarrow> Some v
      | None \<Rightarrow> if fkey f = Some k \<and> k \<noteq> [] then Some (fvalue f) else None)"

text \<open>An array, as \<^verbatim>\<open>Array.isArray\<close> tells.\<close>

definition is_array :: "jsval \<Rightarrow> bool" where
  "is_array v = (case v of JArr xs ps \<Rightarrow> True | _ \<Rightarrow> False)"

definition patched :: "host \<Rightarrow> FormField list \<Rightarrow> jsval \<Rightarrow> jsval \<Rightarrow> bool" where
  "patched h fs target target' =
     (\<forall>k. (is_array target \<longrightarrow> k \<noteq> str ''length'') \<longrightarrow>
          Get h target' k =
            (case last_field fs k of
               Some v \<Rightarrow> Normal (parseValue v)
             | None \<Rightarrow> Get h target k))"

definition committed :: "jsval \<Rightarrow> State \<Rightarrow> State" where
  "committed doc st =
     st\<lparr>json := JSON_stringify doc, contents := JSON_stringify doc,
        editMode := False, closed := True\<rparr>"

text \<open>The examples: the customer document of the specification with its node and the
  patched text, a node whose only row has the empty key, and a document with an array
  and a \<^verbatim>\<open>null\<close> member, addressed by key.\<close>

definition customer_doc :: jsstring where
  "customer_doc = str ''{\"customer\":{\"name\":\"Bob\",\"age\":30}}''"

definition customer_node :: NodeData where
  "customer_node =
     \<lparr>ntext = [\<lparr>rkey = Some (str ''name''), rvalue = JStr (str ''Bob''), rtype = str ''string''\<rparr>,
               \<lparr>rkey = Some (str ''age''), rvalue = JNum (Dec 3 1), rtype = str ''number''\<rparr>],
      npath = Some [Key (str ''customer'')]\<rparr>"

definition customer_patched :: jsstring where
  "customer_patched =
     unlines [''{'', ''  \"customer\": {'', ''    \"name\": \"Bob\",'', ''    \"age\": 31'',
              ''  }'', ''}'']"

definition empty_key_node :: NodeData where
  "empty_key_node =
     \<lparr>ntext = [\<lparr>rkey = Some [], rvalue = JNum (Dec 0 0), rtype = str ''number''\<rparr>],
      npath = Some []\<rparr>"

definition list_doc :: jsstring where
  "list_doc = str ''{\"a\":[1,2],\"n\":null}''"

definition at_key :: "string \<Rightarrow> NodeData" where
  "at_key k = \<lparr>ntext = [], npath = Some [Key (str k)]\<rparr>"

definition list_form :: "FormField list" where
  "list_form = [\<lparr>fkey = Some (str ''x''), fvalue = str ''1''\<rparr>,
                \<lparr>fkey = Some (str ''3''), fvalue = str ''true''\<rparr>]"

text \<open>
  The row normaliser as the specification defines it (4.1): the empty object for no
  rows; the value of the row, as it is, for exactly one row whose key is \<^verbatim>\<open>null\<close>;
  otherwise the mapping built by inserting \<^verbatim>\<open>key: value\<close> for every scalar row in row
  order, a later row overwriting an earlier one with the same key at its place. The
  result is shown as the component shows it: an object pretty-printed, a single value
  through the template literal.
\<close>

fun upsert :: "jsstring \<Rightarrow> jsval \<Rightarrow> props \<Rightarrow> props" where
  "upsert k v [] = [(k, v)]"
| "upsert k v ((k', x) # m) = (if k' = k then (k', v) # m else (k', x) # upsert k v m)"

definition spec_mapping :: "NodeRow list \<Rightarrow> props" where
  "spec_mapping rows =
     foldl (\<lambda>m row. if is_scalar_row row
                      then (case rkey row of Some k \<Rightarrow> upsert k (rvalue row) m | None \<Rightarrow> m)
                      else m) [] rows"

definition normalize_spec :: "NodeRow list \<Rightarrow> jsstring option completion" where
  "normalize_spec rows =
     (if rows = [] then Normal (JSON_stringify (JObj []))
      else if length rows = 1 \<and> rkey (hd rows) = None
      then (case ToString (rvalue (hd rows)) of
              Normal s \<Rightarrow> Normal (Some s)
            | Throw e \<Rightarrow> Throw e
            | HostDefined \<Rightarrow> HostDefined)
      else Normal (JSON_stringify (JObj (spec_mapping rows))))"

text \<open>The reference as amended: a key that is \<^verbatim>\<open>null\<close> or the empty string is falsy, a
  single row with a falsy key is shown as its value, and rows with a falsy key enter no
  mapping. \<open>plain_keys\<close> holds when no scalar row is keyed by an array index or by
  \<^verbatim>\<open>__proto__\<close>.\<close>

definition falsy_key :: "jsstring option \<Rightarrow> bool" where
  "falsy_key k = (k = None \<or> k = Some [])"

definition amended_mapping :: "NodeRow list \<Rightarrow> props" where
  "amended_mapping rows =
     foldl (\<lambda>m row. if is_scalar_row row \<and> \<not> falsy_key (rkey row)
                      then upsert (the (rkey row)) (rvalue row) m
                      else m) [] rows"

definition normalize_amended :: "NodeRow list \<Rightarrow> jsstring option completion" where
  "normalize_amended rows =
     (if rows = [] then Normal (JSON_stringify (JObj []))
      else if length rows = 1 \<and> falsy_key (rkey (hd rows))
      then (case ToString (rvalue (hd rows)) of
              Normal s \<Rightarrow> Normal (Some s)
            | Throw e \<Rightarrow> Throw e
            | HostDefined \<Rightarrow> HostDefined)
      else Normal (JSON_stringify (JObj (amended_mapping rows))))"

definition plain_keys :: "NodeRow list \<Rightarrow> bool" where
  "plain_keys rows =
     list_all (\<lambda>row. case rkey row of
                       None \<Rightarrow> True
                     | Some k \<Rightarrow> is_scalar_row row \<longrightarrow> array_index k = None \<and> k \<noteq> proto_key)
       rows"

text \<open>Rows for the examples.\<close>

definition mixed_rows :: "NodeRow list" where
  "mixed_rows =
     [\<lparr>rkey = Some (str ''b''), rvalue = JNum (Dec 1 0), rtype = str ''number''\<rparr>,
      \<lparr>rkey = Some (str ''c''), rvalue = JNull, rtype = str ''object''\<rparr>,
      \<lparr>rkey = Some (str ''a''), rvalue = JStr (str ''x''), rtype = str ''string''\<rparr>,
      \<lparr>rkey = Some (str ''b''), rvalue = JBool True, rtype = str ''boolean''\<rparr>]"

definition unnamed_row :: "NodeRow list" where
  "unnamed_row = [\<lparr>rkey = None, rvalue = JStr (str ''Bob''), rtype = str ''string''\<rparr>]"

definition empty_key_rows :: "NodeRow list" where
  "empty_key_rows =
     [\<lparr>rkey = Some [], rvalue = JNum (Dec 1 0), rtype = str ''number''\<rparr>,
      \<lparr>rkey = Some (str ''a''), rvalue = JNum (Dec 2 0), rtype = str ''number''\<rparr>]"

text \<open>A text that is valid JSON: it is there, and \<^verbatim>\<open>JSON.parse\<close> accepts it.\<close>

definition valid_json :: "jsstring option \<Rightarrow> bool" where
  "valid_json x =
     (case x of
        None \<Rightarrow> False
      | Some t \<Rightarrow> (case JSON_parse t of Normal v \<Rightarrow> True | Throw e \<Rightarrow> False | HostDefined \<Rightarrow> False))"

text \<open>
  A node of a document, for the round trip. \<open>own_value t k\<close> is the member or element of
  \<open>t\<close> named \<open>k\<close>. A row value is \<open>stable\<close> when the form hands it back: a boolean, a
  number, or a string that is not itself a JSON text (such a string is coerced to the
  value it denotes; \<^verbatim>\<open>null\<close> is seeded as the empty string). A scalar row with a key that
  is neither \<^verbatim>\<open>null\<close> nor empty holds for a target when its value is a stable value and
  the member of that name. The node \<open>reflects\<close> the document when its path resolves
  and its rows hold: the one row of a single-scalar node is the value at the path, the
  rows of an object-like node hold for the target.
\<close>

fun own_value :: "jsval \<Rightarrow> jsstring \<Rightarrow> jsval option" where
  "own_value (JObj ps) k = map_of ps k"
| "own_value (JArr xs ps) k =
     (case array_index k of
        Some i \<Rightarrow> if i < length xs then Some (xs ! i) else None
      | None \<Rightarrow> None)"
| "own_value v k = None"











section \<open>The document a text denotes\<close>

text \<open>
  What \<^verbatim>\<open>JSON.parse\<close> reads back from the text that \<^verbatim>\<open>JSON.stringify\<close> wrote for a
  value: a number in its normal form, an array without its other properties and with
  \<^verbatim>\<open>null\<close> for an element that is \<^verbatim>\<open>undefined\<close>, an object without the members that are
  \<^verbatim>\<open>undefined\<close>, its members defined again in their order.
\<close>

definition define_all :: "props \<Rightarrow> props \<Rightarrow> props" where
  "define_all acc ps = foldl (\<lambda>acc (k, v). define_own k v acc) acc ps"

definition defined_members :: "props \<Rightarrow> props" where
  "defined_members ps = filter (\<lambda>p. snd p \<noteq> JUndefined) ps"

fun jsonify :: "jsval \<Rightarrow> jsval"
and jsonify_elements :: "jsval list \<Rightarrow> jsval list"
and jsonify_members :: "props \<Rightarrow> props"
where
  "jsonify JUndefined = JUndefined"
| "jsonify JNull = JNull"
| "jsonify (JBool b) = JBool b"
| "jsonify (JNum (Dec m e)) = JNum (norm_dec m e)"
| "jsonify (JStr s) = JStr s"
| "jsonify (JArr xs ps) = JArr (jsonify_elements xs) []"
| "jsonify (JObj ps) = JObj (define_all [] (jsonify_members ps))"
| "jsonify_elements [] = []"
| "jsonify_elements (x # xs) = (if x = JUndefined then JNull else jsonify x) # jsonify_elements xs"
| "jsonify_members [] = []"
| "jsonify_members ((k, v) # ps) =
     (if v = JUndefined then jsonify_members ps else (k, jsonify v) # jsonify_members ps)"

text \<open>The text of an element of an array and the value read from it, the text of a
  member of an object, and what may follow a number or a value in a serialised text:
  the end, a comma or a line feed; an indentation is made of spaces.\<close>

definition elem_text :: "jsstring \<Rightarrow> jsval \<Rightarrow> jsstring" where
  "elem_text ind x = (case SerializeJSONProperty ind x of None \<Rightarrow> str ''null'' | Some s \<Rightarrow> s)"

definition elem_val :: "jsval \<Rightarrow> jsval" where
  "elem_val x = (if x = JUndefined then JNull else jsonify x)"

definition member_text :: "jsstring \<Rightarrow> jsstring \<times> jsval \<Rightarrow> jsstring" where
  "member_text ind p = QuoteJSONString (fst p) @ 0x3A # 0x20 # elem_text ind (snd p)"

definition number_end :: "jsstring \<Rightarrow> bool" where
  "number_end rest =
     (rest = [] \<or> (\<not> is_digit (hd rest) \<and> hd rest \<noteq> 0x2E \<and> hd rest \<noteq> 0x65 \<and> hd rest \<noteq> 0x45))"

definition delim :: "jsstring \<Rightarrow> bool" where
  "delim rest = (rest = [] \<or> hd rest = 0x2C \<or> hd rest = 0x0A)"

definition spaces :: "jsstring \<Rightarrow> bool" where
  "spaces ind = list_all (\<lambda>c. c = 0x20) ind"

text \<open>
  The values that \<^verbatim>\<open>JSON.parse\<close> returns: no \<^verbatim>\<open>undefined\<close>, a number in its normal form, an
  array with its elements only, an object whose keys are distinct and in the order of
  \<^verbatim>\<open>OrdinaryOwnPropertyKeys\<close>: the array indices ascending, then the other keys (one key
  may stand before another: \<open>key_before\<close>).
\<close>

definition key_before :: "jsstring \<Rightarrow> jsstring \<Rightarrow> bool" where
  "key_before k k' =
     (k \<noteq> k' \<and>
      (case array_index k' of
         Some j \<Rightarrow> (case array_index k of Some i \<Rightarrow> i < j | None \<Rightarrow> False)
       | None \<Rightarrow> True))"

definition ordered :: "props \<Rightarrow> bool" where
  "ordered ps = sorted_wrt key_before (map fst ps)"

fun is_json :: "jsval \<Rightarrow> bool"
and is_json_elements :: "jsval list \<Rightarrow> bool"
and is_json_members :: "props \<Rightarrow> bool"
where
  "is_json JUndefined = False"
| "is_json JNull = True"
| "is_json (JBool b) = True"
| "is_json (JNum (Dec m e)) = (norm_dec m e = Dec m e)"
| "is_json (JStr s) = True"
| "is_json (JArr xs ps) = (ps = [] \<and> is_json_elements xs)"
| "is_json (JObj ps) = (ordered ps \<and> is_json_members ps)"
| "is_json_elements [] = True"
| "is_json_elements (x # xs) = (is_json x \<and> is_json_elements xs)"
| "is_json_members [] = True"
| "is_json_members ((k, v) # ps) = (is_json v \<and> is_json_members ps)"

chapter \<open>Properties\<close>

section \<open>The parser returns JSON values\<close>

declare parse_value.simps [simp del] parse_elements.simps [simp del] parse_members.simps [simp del]

lemmas parse_value_step = parse_value.simps(3)

lemmas parse_elements_step = parse_elements.simps

lemmas parse_members_step = parse_members.simps

lemma JSON_parse_cases:
  "(\<exists>v. JSON_parse t = Normal v) \<or> JSON_parse t = Throw SyntaxError"
  by (simp add: JSON_parse_def split: option.splits prod.splits)

lemma JSON_parse_empty: "JSON_parse [] = Throw SyntaxError"
  by (simp add: JSON_parse_def skip_ws_def parse_value.simps)

lemma parse_elements_shape:
  "parse_elements n acc cs = Some (v, r) \<Longrightarrow> \<exists>xs. v = JArr xs []"
proof (induction n arbitrary: acc cs)
  case 0
  then show ?case
    by (subst (asm) parse_elements_step) (auto split: option.splits list.splits if_splits)
next
  case (Suc n)
  from Suc.prems show ?case
    apply (subst (asm) parse_elements_step)
    apply (auto split: option.splits list.splits if_splits)
    using Suc.IH by blast
qed

lemma parse_members_shape:
  "parse_members n acc cs = Some (v, r) \<Longrightarrow> \<exists>ps. v = JObj ps"
proof (induction n arbitrary: acc cs)
  case 0
  then show ?case
    by (subst (asm) parse_members_step) (auto split: option.splits list.splits if_splits)
next
  case (Suc n)
  from Suc.prems show ?case
    apply (subst (asm) parse_members_step)
    apply (auto split: option.splits list.splits if_splits)
    using Suc.IH by blast
qed

lemma parse_value_defined:
  "parse_value n cs = Some (v, r) \<Longrightarrow> v \<noteq> JUndefined"
proof (cases n)
  case 0
  assume "parse_value n cs = Some (v, r)"
  with 0 show ?thesis by (cases cs) (simp_all add: parse_value.simps)
next
  case (Suc m)
  assume p: "parse_value n cs = Some (v, r)"
  show ?thesis
  proof (cases cs)
    case Nil
    with p show ?thesis by (simp add: parse_value.simps)
  next
    case (Cons c cs')
    with p Suc show ?thesis
      by (auto simp: parse_value_step parse_literal_def
               split: option.splits list.splits if_splits
               dest: parse_elements_shape parse_members_shape)
  qed
qed

lemma JSON_parse_defined: "JSON_parse t = Normal v \<Longrightarrow> v \<noteq> JUndefined"
  by (auto simp: JSON_parse_def split: option.splits prod.splits if_splits
           dest: parse_value_defined)

lemma JSON_parse_nonempty: "JSON_parse t = Normal v \<Longrightarrow> t \<noteq> []"
  using JSON_parse_empty by auto

section \<open>The walk and the branches of applyEdits\<close>

lemma reduce_get_Throw [simp]: "reduce_get h (Throw e) p = Throw e"
  by (cases p) simp_all

lemma reduce_get_HostDefined [simp]: "reduce_get h HostDefined p = HostDefined"
  by (cases p) simp_all

lemma reduce_get_append:
  "reduce_get h acc (p @ q) = reduce_get h (reduce_get h acc p) q"
proof (induction p arbitrary: acc)
  case Nil
  show ?case by simp
next
  case (Cons s p)
  show ?case by (cases acc) (simp_all add: Cons.IH)
qed

lemma reduce_get_snoc:
  "p \<noteq> [] \<Longrightarrow> reduce_get h acc p = reduce_get h (reduce_get h acc (butlast p)) [last p]"
  using reduce_get_append [of h acc "butlast p" "[last p]"] by simp

lemma reduce_get_parent_Normal:
  assumes "p \<noteq> []" "reduce_get h acc p = Normal v"
  shows "\<exists>parent. reduce_get h acc (butlast p) = Normal parent"
proof (cases "reduce_get h acc (butlast p)")
  case (Normal parent)
  then show ?thesis by blast
next
  case (Throw e)
  with assms reduce_get_snoc [of p h acc] show ?thesis by simp
next
  case HostDefined
  with assms reduce_get_snoc [of p h acc] show ?thesis by simp
qed

text \<open>Once the text has parsed, the \<^verbatim>\<open>try\<close> block is its two branches.\<close>

lemma applyEdits_try_parsed:
  assumes "json st = Some raw" "JSON_parse raw = Normal parsed"
  shows "applyEdits_try h nodeData formState st =
     (case reduce_get h (Normal parsed) (butlast (node_path nodeData)) of
        Throw e \<Rightarrow> (st, Throw e)
      | HostDefined \<Rightarrow> (st, HostDefined)
      | Normal parent \<Rightarrow>
          if isSingleUnnamed nodeData then
            (let newVal = parseValue (case formState of [] \<Rightarrow> [] | f # fs \<Rightarrow> fvalue f)
             in if node_path nodeData = [] then
                  finish (write_back (JSON_stringify newVal) st)
                else if parent \<noteq> JUndefined then
                  (case Set parent (ToPropertyKey (last (node_path nodeData))) newVal of
                     Throw e \<Rightarrow> (st, Throw e)
                   | HostDefined \<Rightarrow> (st, HostDefined)
                   | Normal parent' \<Rightarrow>
                       finish (write_back
                         (JSON_stringify
                            (update_at parsed (map ToPropertyKey (butlast (node_path nodeData))) parent'))
                         st))
                else finish st)
          else
            (case (if node_path nodeData = [] then Normal parsed
                   else reduce_get h (Normal parsed) (node_path nodeData)) of
               Throw e \<Rightarrow> (st, Throw e)
             | HostDefined \<Rightarrow> (st, HostDefined)
             | Normal target \<Rightarrow>
                 if is_object target then
                   (case forEach_field formState target of
                      Throw e \<Rightarrow> (st, Throw e)
                    | HostDefined \<Rightarrow> (st, HostDefined)
                    | Normal target' \<Rightarrow>
                        finish (write_back
                          (JSON_stringify
                             (update_at parsed (map ToPropertyKey (node_path nodeData)) target'))
                          st))
                 else finish st))"
  unfolding applyEdits_try_def node_path_def Let_def
  using assms JSON_parse_nonempty [OF assms(2)] JSON_parse_defined [OF assms(2)]
  by (simp split: completion.splits)

section \<open>The bound on the calls of the parser\<close>

lemma length_skip_ws: "length (skip_ws cs) \<le> length cs"
  by (simp add: skip_ws_def length_dropWhile_le)

lemma parse_chars_shorter': 
  "case parse_chars cs of None \<Rightarrow> True | Some (s, r) \<Rightarrow> length r < length cs"
proof (induction cs rule: parse_chars.induct)
  case 1
  show ?case by simp
next
  case (2 c cs)
  show ?case
  proof (cases "c = 0x22")
    case True
    then show ?thesis by simp
  next
    case q: False
    show ?thesis
    proof (cases "c = 0x5C")
      case False
      with q "2.IH"(3) show ?thesis
        by (auto split: option.splits)
    next
      case True
      show ?thesis
      proof (cases cs)
        case Nil
        with True show ?thesis by simp
      next
        case (Cons e r)
        show ?thesis
        proof (cases "e = 0x75")
          case False
          with q True Cons "2.IH"(2) [of e r] show ?thesis
            by (auto split: option.splits)
        next
          case u: True
          show ?thesis
          proof (cases "\<exists>a b c' d r'. r = a # b # c' # d # r'")
            case False
            with q True Cons u show ?thesis
              by (auto split: list.splits)
          next
            case True
            then obtain a b c' d r' where r: "r = a # b # c' # d # r'" by blast
            with q \<open>c = 0x5C\<close> Cons u "2.IH"(1) [of e r a "b # c' # d # r'" b "c' # d # r'" c' "d # r'" d r']
            show ?thesis
              by (auto split: option.splits)
          qed
        qed
      qed
    qed
  qed
qed

lemma parse_chars_shorter: "parse_chars cs = Some (s, r) \<Longrightarrow> length r < length cs"
  using parse_chars_shorter' [of cs] by simp

lemma parse_int_part_shorter: "parse_int_part cs = Some (ip, r) \<Longrightarrow> length r < length cs"
proof (cases cs)
  case Nil
  assume "parse_int_part cs = Some (ip, r)"
  with Nil show ?thesis by (simp add: parse_int_part_def)
next
  case (Cons c cs')
  assume "parse_int_part cs = Some (ip, r)"
  with Cons length_dropWhile_le [of is_digit cs'] show ?thesis
    by (auto simp: parse_int_part_def split: if_splits)
qed

lemma parse_fraction_shorter: "parse_fraction cs = Some (fp, r) \<Longrightarrow> length r \<le> length cs"
proof (cases cs)
  case Nil
  assume "parse_fraction cs = Some (fp, r)"
  with Nil show ?thesis by (simp add: parse_fraction_def)
next
  case (Cons c cs')
  assume "parse_fraction cs = Some (fp, r)"
  with Cons length_dropWhile_le [of is_digit cs'] show ?thesis
    by (auto simp: parse_fraction_def Let_def split: if_splits)
qed

lemma parse_exponent_shorter: "parse_exponent cs = Some (ex, r) \<Longrightarrow> length r \<le> length cs"
proof (cases cs)
  case Nil
  assume "parse_exponent cs = Some (ex, r)"
  with Nil show ?thesis by (simp add: parse_exponent_def)
next
  case (Cons c cs')
  assume a: "parse_exponent cs = Some (ex, r)"
  show ?thesis
  proof (cases cs')
    case Nil
    with a Cons show ?thesis
      by (auto simp: parse_exponent_def Let_def split: if_splits)
  next
    case c2: (Cons s r')
    with a Cons length_dropWhile_le [of is_digit r'] length_dropWhile_le [of is_digit cs']
    show ?thesis
      by (auto simp: parse_exponent_def Let_def split: if_splits)
  qed
qed

lemma parse_number_shorter: "parse_number cs = Some (x, r) \<Longrightarrow> length r < length cs"
proof -
  assume a: "parse_number cs = Some (x, r)"
  obtain neg cs1 where n: "(case cs of [] \<Rightarrow> (False, cs)
        | c # r \<Rightarrow> if c = 0x2D then (True, r) else (False, cs)) = (neg, cs1)"
    by (cases "case cs of [] \<Rightarrow> (False, cs) | c # r \<Rightarrow> if c = 0x2D then (True, r) else (False, cs)")
  then have l1: "length cs1 \<le> length cs" by (auto split: list.splits if_splits)
  from a n obtain ip cs2 fp cs3 ex where
    "parse_int_part cs1 = Some (ip, cs2)" "parse_fraction cs2 = Some (fp, cs3)"
    "parse_exponent cs3 = Some (ex, r)"
    by (auto simp: parse_number_def Let_def split: option.splits)
  with l1 parse_int_part_shorter [of cs1 ip cs2] parse_fraction_shorter [of cs2 fp cs3]
    parse_exponent_shorter [of cs3 ex r]
  show ?thesis by simp
qed

lemma parse_literal_shorter:
  "w \<noteq> [] \<Longrightarrow> parse_literal w v cs = Some (u, r) \<Longrightarrow> length r < length cs"
  by (cases cs) (auto simp: parse_literal_def split: if_splits)

lemma skip_ws_shorter: "skip_ws cs = d # r \<Longrightarrow> length r < length cs"
  using length_skip_ws [of cs] by simp

lemma parse_elements_Some:
  assumes "parse_elements n acc cs = Some (v, r)"
  obtains v1 r1 d r' where "parse_value n cs = Some (v1, r1)" and "skip_ws r1 = d # r'"
    and "(d = 0x5D \<and> v = JArr (acc @ [v1]) [] \<and> r = r')
       \<or> (d = 0x2C \<and> (\<exists>m. n = Suc m \<and> parse_elements m (acc @ [v1]) (skip_ws r') = Some (v, r)))"
  using assms
  by (subst (asm) parse_elements_step)
     (auto split: option.splits list.splits if_splits nat.splits)

lemma parse_members_Some:
  assumes "parse_members n acc cs = Some (v, r)"
  obtains cs1 k r0 r1 v1 r2 d r3 where "cs = 0x22 # cs1" and "parse_chars cs1 = Some (k, r0)"
    and "skip_ws r0 = 0x3A # r1" and "parse_value n (skip_ws r1) = Some (v1, r2)"
    and "skip_ws r2 = d # r3"
    and "(d = 0x7D \<and> v = JObj (define_own k v1 acc) \<and> r = r3)
       \<or> (d = 0x2C \<and> (\<exists>m. n = Suc m
             \<and> parse_members m (define_own k v1 acc) (skip_ws r3) = Some (v, r)))"
  using assms
  by (subst (asm) parse_members_step)
     (auto split: option.splits list.splits if_splits nat.splits)

lemma parse_shorter:
  "(\<forall>cs v r. parse_value n cs = Some (v, r) \<longrightarrow> length r < length cs)
   \<and> (\<forall>cs acc v r. parse_elements n acc cs = Some (v, r) \<longrightarrow> length r < length cs)
   \<and> (\<forall>cs acc v r. parse_members n acc cs = Some (v, r) \<longrightarrow> length r < length cs)"
proof (induction n)
  case 0
  have v: "parse_value 0 cs = None" for cs by (cases cs) (simp_all add: parse_value.simps)
  show ?case
    apply (intro conjI allI impI)
      apply (simp add: v)
     apply (erule parse_elements_Some, simp add: v)
    apply (erule parse_members_Some, simp add: v)
    done
next
  case (Suc n)
  then have E: "\<And>cs acc v r. parse_elements n acc cs = Some (v, r) \<Longrightarrow> length r < length cs"
    and M: "\<And>cs acc v r. parse_members n acc cs = Some (v, r) \<Longrightarrow> length r < length cs"
    by blast+
  have V: "length r < length cs" if "parse_value (Suc n) cs = Some (v, r)" for cs v r
  proof (cases cs)
    case Nil
    with that show ?thesis by (simp add: parse_value.simps)
  next
    case (Cons c cs')
    from that [unfolded Cons parse_value_step] show ?thesis
      unfolding Cons
      by (auto simp: str_def split: if_splits list.splits option.splits prod.splits
               dest!: E M parse_number_shorter parse_chars_shorter skip_ws_shorter
                 parse_literal_shorter [rotated])
  qed
  have E': "length r < length cs" if "parse_elements (Suc n) acc cs = Some (v, r)" for cs acc v r
    using that
  proof (rule parse_elements_Some)
    fix v1 r1 d r'
    assume "parse_value (Suc n) cs = Some (v1, r1)" "skip_ws r1 = d # r'"
      and c: "(d = 0x5D \<and> v = JArr (acc @ [v1]) [] \<and> r = r')
       \<or> (d = 0x2C \<and> (\<exists>m. Suc n = Suc m \<and> parse_elements m (acc @ [v1]) (skip_ws r') = Some (v, r)))"
    then have l: "length r1 < length cs" "length r' < length r1"
      by (auto dest: V skip_ws_shorter)
    from c show ?thesis
    proof
      assume "d = 0x5D \<and> v = JArr (acc @ [v1]) [] \<and> r = r'"
      with l show ?thesis by simp
    next
      assume "d = 0x2C \<and> (\<exists>m. Suc n = Suc m \<and> parse_elements m (acc @ [v1]) (skip_ws r') = Some (v, r))"
      then have "parse_elements n (acc @ [v1]) (skip_ws r') = Some (v, r)" by simp
      from E [OF this] length_skip_ws [of r'] l show ?thesis by simp
    qed
  qed
  have M': "length r < length cs" if "parse_members (Suc n) acc cs = Some (v, r)" for cs acc v r
    using that
  proof (rule parse_members_Some)
    fix cs1 k r0 r1 v1 r2 d r3
    assume "cs = 0x22 # cs1" "parse_chars cs1 = Some (k, r0)" "skip_ws r0 = 0x3A # r1"
      "parse_value (Suc n) (skip_ws r1) = Some (v1, r2)" "skip_ws r2 = d # r3"
      and c: "(d = 0x7D \<and> v = JObj (define_own k v1 acc) \<and> r = r3)
       \<or> (d = 0x2C \<and> (\<exists>m. Suc n = Suc m
             \<and> parse_members m (define_own k v1 acc) (skip_ws r3) = Some (v, r)))"
    then have l: "length r3 < length cs"
      using length_skip_ws [of r1]
      by (auto dest!: V skip_ws_shorter parse_chars_shorter)
    from c show ?thesis
    proof
      assume "d = 0x7D \<and> v = JObj (define_own k v1 acc) \<and> r = r3"
      with l show ?thesis by simp
    next
      assume "d = 0x2C \<and> (\<exists>m. Suc n = Suc m
             \<and> parse_members m (define_own k v1 acc) (skip_ws r3) = Some (v, r))"
      then have "parse_members n (define_own k v1 acc) (skip_ws r3) = Some (v, r)" by simp
      from M [OF this] length_skip_ws [of r3] l show ?thesis by simp
    qed
  qed
  from V E' M' show ?case by blast
qed

lemma parse_value_shorter: "parse_value n cs = Some (v, r) \<Longrightarrow> length r < length cs"
  using parse_shorter [of n] by blast

lemma parse_fuel_Suc:
  "(\<forall>cs. length cs \<le> n \<longrightarrow> parse_value (Suc n) cs = parse_value n cs)
   \<and> (\<forall>cs acc. length cs \<le> n \<longrightarrow> parse_elements (Suc n) acc cs = parse_elements n acc cs)
   \<and> (\<forall>cs acc. length cs \<le> n \<longrightarrow> parse_members (Suc n) acc cs = parse_members n acc cs)"
proof (induction n)
  case 0
  show ?case
    by (simp add: parse_value.simps parse_elements_step [of _ _ "[]"]
          parse_members_step [of _ _ "[]"])
next
  case (Suc m)
  then have E: "\<And>cs acc. length cs \<le> m \<Longrightarrow> parse_elements (Suc m) acc cs = parse_elements m acc cs"
    and M: "\<And>cs acc. length cs \<le> m \<Longrightarrow> parse_members (Suc m) acc cs = parse_members m acc cs"
    by blast+
  have V: "parse_value (Suc (Suc m)) cs = parse_value (Suc m) cs" if "length cs \<le> Suc m" for cs
  proof (cases cs)
    case Nil
    then show ?thesis by (simp add: parse_value.simps)
  next
    case (Cons c cs')
    show ?thesis
    proof (cases "skip_ws cs'")
      case Nil
      then show ?thesis by (simp add: Cons parse_value_step)
    next
      case sk: (Cons d r)
      with that length_skip_ws [of cs'] have "length (d # r) \<le> m" by (simp add: Cons)
      with sk show ?thesis by (simp add: Cons parse_value_step E M)
    qed
  qed
  have E': "parse_elements (Suc (Suc m)) acc cs = parse_elements (Suc m) acc cs"
    if len: "length cs \<le> Suc m" for cs acc
  proof -
    note L = parse_elements_step [of "Suc (Suc m)" acc cs]
    note R = parse_elements_step [of "Suc m" acc cs]
    show ?thesis
    proof (cases "parse_value (Suc m) cs")
      case None
      then show ?thesis by (simp add: L R V [OF len])
    next
      case (Some a)
      obtain v1 r1 where a: "a = (v1, r1)" by (cases a)
      from Some a have l1: "length r1 < length cs" by (auto dest: parse_value_shorter)
      show ?thesis
      proof (cases "skip_ws r1")
        case Nil
        with Some a show ?thesis by (simp add: L R V [OF len])
      next
        case (Cons d r')
        with l1 len length_skip_ws [of r'] have "length (skip_ws r') \<le> m"
          by (auto dest!: skip_ws_shorter)
        from E [OF this] Some a Cons show ?thesis by (simp add: L R V [OF len])
      qed
    qed
  qed
  have M': "parse_members (Suc (Suc m)) acc cs = parse_members (Suc m) acc cs"
    if len: "length cs \<le> Suc m" for cs acc
  proof -
    note L = parse_members_step [of "Suc (Suc m)" acc cs]
    note R = parse_members_step [of "Suc m" acc cs]
    show ?thesis
    proof (cases cs)
      case Nil
      then show ?thesis unfolding L R by simp
    next
      case c: (Cons q cs1)
      show ?thesis
      proof (cases "parse_chars cs1")
        case None
        with c show ?thesis unfolding L R by simp
      next
        case k: (Some a)
        obtain k r0 where a: "a = (k, r0)" by (cases a)
        from k a have l0: "length r0 < length cs1" by (auto dest: parse_chars_shorter)
        show ?thesis
        proof (cases "skip_ws r0")
          case Nil
          with c k a show ?thesis unfolding L R by simp
        next
          case s0: (Cons d r1)
          with l0 len c length_skip_ws [of r1] have l1: "length (skip_ws r1) \<le> m"
            by (auto dest!: skip_ws_shorter)
          then have v: "parse_value (Suc (Suc m)) (skip_ws r1) = parse_value (Suc m) (skip_ws r1)"
            by (intro V) simp
          show ?thesis
          proof (cases "parse_value (Suc m) (skip_ws r1)")
            case None
            with c k a s0 v show ?thesis unfolding L R by simp
          next
            case pv: (Some b)
            obtain v1 r2 where b: "b = (v1, r2)" by (cases b)
            from pv b have l2: "length r2 < length (skip_ws r1)"
              by (auto dest: parse_value_shorter)
            show ?thesis
            proof (cases "skip_ws r2")
              case Nil
              with c k a s0 v pv b show ?thesis unfolding L R by simp
            next
              case s2: (Cons d' r3)
              with l1 l2 length_skip_ws [of r3] have "length (skip_ws r3) \<le> m"
                by (auto dest!: skip_ws_shorter)
              from M [OF this] c k a s0 v pv b s2 show ?thesis unfolding L R by simp
            qed
          qed
        qed
      qed
    qed
  qed
  from V E' M' show ?case by blast
qed

text \<open>More calls than the text has characters change nothing.\<close>

lemma parse_value_fuel: "length cs \<le> n \<Longrightarrow> parse_value n cs = parse_value (length cs) cs"
proof (induction n)
  case 0
  then show ?case by simp
next
  case (Suc n)
  show ?case
  proof (cases "length cs = Suc n")
    case True
    then show ?thesis by simp
  next
    case False
    with Suc.prems have l: "length cs \<le> n" by simp
    with parse_fuel_Suc [of n] have "parse_value (Suc n) cs = parse_value n cs" by blast
    with Suc.IH [OF l] show ?thesis by simp
  qed
qed

lemma JSON_parse_fuel:
  "length t \<le> n \<Longrightarrow> JSON_parse t =
     (case parse_value n (skip_ws t) of
        None \<Rightarrow> Throw SyntaxError
      | Some (v, r) \<Rightarrow> if skip_ws r = [] then Normal v else Throw SyntaxError)"
proof -
  assume "length t \<le> n"
  with length_skip_ws [of t] have "length (skip_ws t) \<le> n" "length (skip_ws t) \<le> length t"
    by simp_all
  from parse_value_fuel [OF this(1)] parse_value_fuel [OF this(2)]
  show ?thesis by (simp add: JSON_parse_def)
qed

section \<open>Decimal digits\<close>

lemma digits_small [simp]: "n < 10 \<Longrightarrow> digits n = [n]"
  by (subst digits.simps) simp

lemma digits_large: "10 \<le> n \<Longrightarrow> digits n = digits (n div 10) @ [n mod 10]"
  by (subst digits.simps) simp

lemma digits_nonempty [simp]: "digits n \<noteq> []"
  by (subst digits.simps) simp

lemma digits_lt10: "d \<in> set (digits n) \<Longrightarrow> d < 10"
proof (induction n arbitrary: d rule: digits.induct)
  case (1 n)
  show ?case
  proof (cases "n < 10")
    case True
    with "1.prems" show ?thesis by simp
  next
    case False
    then have "digits n = digits (n div 10) @ [n mod 10]" by (simp add: digits_large)
    with "1.prems" have "d \<in> set (digits (n div 10)) \<or> d = n mod 10" by auto
    then show ?thesis
    proof
      assume "d \<in> set (digits (n div 10))"
      with False show ?thesis by (rule "1.IH")
    next
      assume "d = n mod 10"
      then show ?thesis by simp
    qed
  qed
qed

lemma hd_digits_pos: "0 < n \<Longrightarrow> 0 < hd (digits n)"
proof (induction n rule: digits.induct)
  case (1 n)
  show ?case
  proof (cases "n < 10")
    case True
    with "1.prems" show ?thesis by simp
  next
    case False
    then have "0 < n div 10" by simp
    with False "1.IH" show ?thesis by (simp add: digits_large)
  qed
qed

lemma digits_times10: "0 < n \<Longrightarrow> digits (10 * n) = digits n @ [0]"
  by (simp add: digits_large)

lemma digits_times_power: "0 < n \<Longrightarrow> digits (n * 10 ^ j) = digits n @ replicate j 0"
proof (induction j)
  case 0
  show ?case by simp
next
  case (Suc j)
  have "digits (n * 10 ^ Suc j) = digits (10 * (n * 10 ^ j))" by (simp add: mult.commute mult.left_commute)
  also have "\<dots> = digits (n * 10 ^ j) @ [0]" using Suc.prems by (intro digits_times10) simp
  also have "\<dots> = digits n @ replicate (Suc j) 0" using Suc by (simp add: replicate_append_same)
  finally show ?case .
qed

lemma digits_value: "foldl (\<lambda>a d. 10 * a + d) 0 (digits n) = n"
proof (induction n rule: digits.induct)
  case (1 n)
  show ?case
  proof (cases "n < 10")
    case True
    then show ?thesis by simp
  next
    case False
    with "1.IH" show ?thesis by (simp add: digits_large)
  qed
qed

lemma length_digits_le: "0 < k \<Longrightarrow> n < 10 ^ k \<Longrightarrow> length (digits n) \<le> k"
proof (induction n arbitrary: k rule: digits.induct)
  case (1 n)
  show ?case
  proof (cases "n < 10")
    case True
    with "1.prems" show ?thesis by simp
  next
    case False
    with "1.prems" obtain k' where k: "k = Suc k'" by (cases k) auto
    with False "1.prems" have "0 < k'" by (cases k') auto
    moreover from k "1.prems" have "n div 10 < 10 ^ k'"
      by (simp add: less_mult_imp_div_less mult.commute)
    ultimately have "length (digits (n div 10)) \<le> k'" using "1.IH" False by simp
    with False k show ?thesis by (simp add: digits_large)
  qed
qed

lemma length_digits_ge: "10 ^ k \<le> n \<Longrightarrow> k < length (digits n)"
proof (induction n arbitrary: k rule: digits.induct)
  case (1 n)
  show ?case
  proof (cases "n < 10")
    case True
    have "k = 0"
    proof (rule ccontr)
      assume "k \<noteq> 0"
      then have "(10::nat) \<le> 10 ^ k" by (intro self_le_power) simp_all
      with True "1.prems" show False by simp
    qed
    then show ?thesis by simp
  next
    case False
    show ?thesis
    proof (cases k)
      case 0
      then show ?thesis by simp
    next
      case (Suc k')
      with "1.prems" have "10 ^ k' \<le> n div 10" by (simp add: less_eq_div_iff_mult_less_eq mult.commute)
      with "1.IH" False have "k' < length (digits (n div 10))" by simp
      with False Suc show ?thesis by (simp add: digits_large)
    qed
  qed
qed

section \<open>Digit characters\<close>

lemma unat_digit_char: "d < 10 \<Longrightarrow> unat (digit_char d) = 48 + d"
  unfolding digit_char_def by (simp only: unat_of_nat) simp

lemma digit_val_digit_char: "d < 10 \<Longrightarrow> digit_val (digit_char d) = d"
  by (simp add: digit_val_def unat_digit_char)

lemma is_digit_digit_char: "d < 10 \<Longrightarrow> is_digit (digit_char d)"
  unfolding is_digit_def by (simp add: word_le_nat_alt unat_digit_char)

lemma digit_char_zero: "digit_char 0 = 0x30"
  by (simp add: digit_char_def)

lemma digit_char_eq_zero_iff: "d < 10 \<Longrightarrow> digit_char d = 0x30 \<longleftrightarrow> d = 0"
  using digit_val_digit_char [of d] digit_val_digit_char [of 0]
  by (auto simp: digit_char_zero [symmetric] simp del: digit_char_zero)

lemma list_all_is_digit_show_nat: "list_all is_digit (show_nat n)"
  by (auto simp: show_nat_def list_all_iff dest: digits_lt10 intro: is_digit_digit_char)

lemma show_nat_nonempty [simp]: "show_nat n \<noteq> []"
  by (simp add: show_nat_def)

lemma length_show_nat: "length (show_nat n) = length (digits n)"
  by (simp add: show_nat_def)

lemma read_digits_map:
  "(\<And>d. d \<in> set ds \<Longrightarrow> d < 10) \<Longrightarrow>
   foldl (\<lambda>a c. 10 * a + digit_val c) a0 (map digit_char ds) = foldl (\<lambda>a d. 10 * a + d) a0 ds"
  by (induction ds arbitrary: a0) (simp_all add: digit_val_digit_char)

lemma read_digits_show_nat [simp]: "read_digits (show_nat n) = n"
  unfolding read_digits_def show_nat_def
  by (subst read_digits_map) (auto dest: digits_lt10 simp: digits_value)

lemma foldl_digits_shift:
  "foldl (\<lambda>a c. 10 * a + digit_val c) a0 cs = a0 * 10 ^ length cs + read_digits cs"
  unfolding read_digits_def
proof (induction cs arbitrary: a0)
  case Nil
  show ?case by simp
next
  case (Cons c cs)
  let ?f = "\<lambda>a c. 10 * a + digit_val c"
  have "foldl ?f a0 (c # cs) = foldl ?f (10 * a0 + digit_val c) cs" by simp
  also have "\<dots> = (10 * a0 + digit_val c) * 10 ^ length cs + foldl ?f 0 cs"
    by (rule Cons.IH)
  also have "\<dots> = a0 * 10 ^ length (c # cs) + (digit_val c * 10 ^ length cs + foldl ?f 0 cs)"
    by (simp add: algebra_simps)
  also have "digit_val c * 10 ^ length cs + foldl ?f 0 cs = foldl ?f (digit_val c) cs"
    by (rule Cons.IH [symmetric])
  also have "foldl ?f (digit_val c) cs = foldl ?f 0 (c # cs)" by simp
  finally show ?case .
qed

lemma read_digits_append:
  "read_digits (xs @ ys) = read_digits xs * 10 ^ length ys + read_digits ys"
  using foldl_digits_shift [of "read_digits xs" ys] by (simp add: read_digits_def)

lemma read_digits_zeros [simp]: "read_digits (replicate j 0x30) = 0"
  by (induction j) (simp_all add: read_digits_def digit_val_def)

lemma show_nat_times_power:
  "0 < n \<Longrightarrow> show_nat (n * 10 ^ j) = show_nat n @ replicate j 0x30"
  by (simp add: show_nat_def digits_times_power digit_char_zero)

lemma hd_show_nat: "0 < n \<Longrightarrow> hd (show_nat n) \<noteq> 0x30"
proof -
  assume n: "0 < n"
  have "hd (show_nat n) = digit_char (hd (digits n))" by (simp add: show_nat_def hd_map)
  moreover have "hd (digits n) < 10" by (rule digits_lt10 [of _ n]) simp
  moreover have "0 < hd (digits n)" using n by (rule hd_digits_pos)
  ultimately show ?thesis by (simp add: digit_char_eq_zero_iff)
qed

section \<open>Normal form\<close>

lemma norm_dec_zero [simp]: "norm_dec 0 e = Dec 0 0"
  by (simp add: norm_dec.simps)

lemma norm_dec_normal: "\<not> 10 dvd m \<Longrightarrow> norm_dec m e = Dec m e"
  by (subst norm_dec.simps) (auto simp: dvd_eq_mod_eq_0)

lemma norm_dec_times10: "m \<noteq> 0 \<Longrightarrow> norm_dec (m * 10) e = norm_dec m (e + 1)"
  by (subst norm_dec.simps) simp

lemma norm_dec_times_power: "m \<noteq> 0 \<Longrightarrow> norm_dec (m * 10 ^ j) e = norm_dec m (e + int j)"
proof (induction j arbitrary: e)
  case 0
  show ?case by simp
next
  case (Suc j)
  have "m * 10 ^ Suc j = (m * 10 ^ j) * 10" by simp
  then have "norm_dec (m * 10 ^ Suc j) e = norm_dec ((m * 10 ^ j) * 10) e" by (simp only:)
  also have "\<dots> = norm_dec (m * 10 ^ j) (e + 1)" using Suc.prems by (intro norm_dec_times10) simp
  also have "\<dots> = norm_dec m (e + 1 + int j)" using Suc.prems by (rule Suc.IH)
  also have "e + 1 + int j = e + int (Suc j)" by simp
  finally show ?case .
qed

lemma norm_dec_shape:
  "m \<noteq> 0 \<Longrightarrow> \<exists>m' j. norm_dec m e = Dec m' (e + int j) \<and> m = m' * 10 ^ j \<and> \<not> 10 dvd m'"
proof (induction m e rule: norm_dec.induct)
  case (1 m e)
  show ?case
  proof (cases "m mod 10 = 0")
    case False
    then have "\<not> 10 dvd m" by (simp add: dvd_eq_mod_eq_0)
    then have "norm_dec m e = Dec m (e + int 0) \<and> m = m * 10 ^ 0 \<and> \<not> 10 dvd m"
      by (simp add: norm_dec_normal)
    then show ?thesis by blast
  next
    case True
    with "1.prems" have nz: "m div 10 \<noteq> 0" by auto
    from "1.IH" [OF "1.prems" True nz] obtain m' j where
      h: "norm_dec (m div 10) (e + 1) = Dec m' (e + 1 + int j)" "m div 10 = m' * 10 ^ j" "\<not> 10 dvd m'"
      by blast
    from True "1.prems" have "norm_dec m e = norm_dec (m div 10) (e + 1)"
      by (subst norm_dec.simps) simp
    with h(1) have "norm_dec m e = Dec m' (e + int (Suc j))" by (simp add: add.assoc add.commute)
    moreover from True h(2) have "m = m' * 10 ^ Suc j" by auto
    ultimately show ?thesis using h(3) by blast
  qed
qed

lemma Number_toString_nat:
  assumes "n < 10 ^ 21"
  shows "Number_toString (num_of_nat n) = show_nat n"
proof (cases "n = 0")
  case True
  then show ?thesis by (simp add: num_of_nat_def Number_toString_def show_nat_def str_def digit_char_def)
next
  case False
  then have "int n \<noteq> 0" by simp
  from norm_dec_shape [OF this, of 0] obtain m' j where
    h: "norm_dec (int n) 0 = Dec m' (int j)" "int n = m' * 10 ^ j" "\<not> 10 dvd m'"
    by auto
  from False have "0 < m' * 10 ^ j" by (simp add: h(2) [symmetric])
  then have pos: "0 < m'" by (simp add: zero_less_mult_iff)
  define m where "m = nat m'"
  with pos have m': "m' = int m" "0 < m" by simp_all
  from h(2) have "int n = int (m * 10 ^ j)" by (simp add: m'(1))
  then have n: "n = m * 10 ^ j" by (simp only: of_nat_eq_iff)
  have shown: "show_nat n = show_nat m @ replicate j 0x30"
    using m'(2) by (simp add: n show_nat_times_power)
  have "length (digits n) \<le> 21" using assms by (intro length_digits_le) simp_all
  then have le21: "length (show_nat m) + j \<le> 21"
    by (simp add: shown length_show_nat [symmetric])
  have "Number_toString (num_of_nat n) = show_nat m @ replicate j 0x30"
    using pos le21 by (simp add: num_of_nat_def h(1) Number_toString_def Let_def m'(1))
  with shown show ?thesis by simp
qed

section \<open>Index keys\<close>

lemma digit_char_digit_val: "is_digit c \<Longrightarrow> digit_char (digit_val c) = c"
proof -
  assume "is_digit c"
  then have b: "48 \<le> unat c" "unat c \<le> 57"
    by (simp_all add: is_digit_def word_le_nat_alt)
  then have "unat (digit_char (digit_val c)) = unat c"
    by (simp add: unat_digit_char digit_val_def)
  then show ?thesis by (simp only: word_unat_eq_iff)
qed

lemma digit_val_lt10: "is_digit c \<Longrightarrow> digit_val c < 10"
  by (auto simp: is_digit_def digit_val_def word_le_nat_alt)

lemma read_digits_snoc: "read_digits (ks @ [c]) = 10 * read_digits ks + digit_val c"
  by (simp add: read_digits_def)

lemma show_read_digits:
  "k \<noteq> [] \<Longrightarrow> list_all is_digit k \<Longrightarrow> hd k \<noteq> 0x30
     \<Longrightarrow> show_nat (read_digits k) = k \<and> 0 < read_digits k"
proof (induction k rule: rev_induct)
  case Nil
  then show ?case by simp
next
  case (snoc c ks)
  from snoc.prems have c: "is_digit c" by simp
  show ?case
  proof (cases "ks = []")
    case True
    with snoc.prems have "c \<noteq> 0x30" by simp
    have "digit_val c \<noteq> 0"
    proof
      assume "digit_val c = 0"
      then have "digit_char (digit_val c) = 0x30" by (simp add: digit_char_zero)
      with c \<open>c \<noteq> 0x30\<close> show False by (simp add: digit_char_digit_val)
    qed
    moreover have "digit_val c < 10" using c by (rule digit_val_lt10)
    ultimately show ?thesis
      using True c by (simp add: read_digits_def show_nat_def digit_char_digit_val)
  next
    case False
    with snoc.prems have "list_all is_digit ks" "hd ks \<noteq> 0x30" by simp_all
    with snoc.IH False have ih: "show_nat (read_digits ks) = ks" "0 < read_digits ks" by simp_all
    let ?n = "10 * read_digits ks + digit_val c"
    have lt: "digit_val c < 10" using c by (rule digit_val_lt10)
    from ih(2) have "10 \<le> ?n" by simp
    then have "digits ?n = digits (?n div 10) @ [?n mod 10]" by (rule digits_large)
    also have "?n div 10 = read_digits ks" using lt by simp
    also have "?n mod 10 = digit_val c" using lt by simp
    finally have "show_nat ?n = show_nat (read_digits ks) @ [digit_char (digit_val c)]"
      by (simp add: show_nat_def)
    with ih c show ?thesis by (simp add: read_digits_snoc digit_char_digit_val)
  qed
qed

lemma canonical_index_show: "canonical_index k = Some i \<Longrightarrow> k = show_nat i"
proof -
  assume a: "canonical_index k = Some i"
  then have k: "k \<noteq> []" "list_all is_digit k" "k = [0x30] \<or> hd k \<noteq> 0x30" "i = read_digits k"
    by (auto simp: canonical_index_def split: if_splits)
  show ?thesis
  proof (cases "k = [0x30]")
    case True
    with k(4) show ?thesis by (simp add: read_digits_def digit_val_def show_nat_def digit_char_def)
  next
    case False
    with k show_read_digits [of k] show ?thesis by simp
  qed
qed

lemma array_index_show: "array_index k = Some i \<Longrightarrow> k = show_nat i"
  by (auto simp: array_index_def split: option.splits if_splits dest: canonical_index_show)

lemma array_index_inj:
  "array_index k = Some i \<Longrightarrow> array_index k' = Some i \<Longrightarrow> k = k'"
  by (auto dest!: array_index_show)

lemma array_index_length [simp]: "array_index (str ''length'') = None"
  by code_simp

lemma array_index_proto [simp]: "array_index proto_key = None"
  by code_simp

lemma length_not_proto [simp]: "str ''length'' \<noteq> proto_key"
  by code_simp

section \<open>Own properties\<close>


lemma map_of_replace_own:
  "has_own k ps \<Longrightarrow> map_of (replace_own k v ps) = (map_of ps)(k \<mapsto> v)"
  by (induction ps) (auto simp: fun_eq_iff)

lemma map_of_insert_index:
  "\<not> has_own k ps \<Longrightarrow> map_of (insert_index i k v ps) = (map_of ps)(k \<mapsto> v)"
proof (induction ps)
  case Nil
  show ?case by (simp add: fun_eq_iff)
next
  case (Cons p ps)
  obtain k' x where p: "p = (k', x)" by (cases p)
  with Cons show ?case
    by (auto simp: fun_eq_iff split: option.splits)
qed

lemma map_of_snoc:
  "\<not> has_own k ps \<Longrightarrow> map_of (ps @ [(k, v)]) = (map_of ps)(k \<mapsto> v)"
  by (induction ps) (auto simp: fun_eq_iff)

lemma map_of_define_own: "map_of (define_own k v ps) = (map_of ps)(k \<mapsto> v)"
proof (cases "has_own k ps")
  case True
  then show ?thesis by (simp add: define_own_def map_of_replace_own)
next
  case False
  show ?thesis
  proof (cases "array_index k")
    case None
    with False map_of_snoc [of k ps v] show ?thesis
      by (simp add: define_own_def del: map_of_append)
  next
    case (Some i)
    with False map_of_insert_index [of k ps i v] show ?thesis
      by (simp add: define_own_def)
  qed
qed

section \<open>Reading after assigning\<close>

lemma Get_Set_same:
  assumes "Set t k v = Normal t'" and "v \<noteq> JUndefined" and "k \<noteq> str ''length''"
    and "is_object t"
  shows "Get h t' k = Normal v"
proof (cases t)
  case (JObj ps)
  with assms show ?thesis by (auto simp: map_of_define_own split: if_splits)
next
  case (JArr xs ps)
  show ?thesis
  proof (cases "array_index k")
    case None
    with JArr assms show ?thesis
      by (auto simp: map_of_define_own split: if_splits)
  next
    case (Some i)
    with JArr assms show ?thesis
      by (auto simp: nth_append split: if_splits)
  qed
qed (use assms in \<open>simp_all add: is_object_def\<close>)

lemma Get_Set_other:
  assumes "Set t k v = Normal t'" and "k' \<noteq> k" and "is_object t"
    and "\<And>xs ps. t = JArr xs ps \<Longrightarrow> k \<noteq> str ''length'' \<and> k' \<noteq> str ''length''"
  shows "Get h t' k' = Get h t k'"
proof (cases t)
  case (JObj ps)
  with assms show ?thesis by (auto simp: map_of_define_own split: if_splits)
next
  case (JArr xs ps)
  with assms(4) have nl: "k \<noteq> str ''length''" "k' \<noteq> str ''length''" by simp_all
  show ?thesis
  proof (cases "array_index k")
    case None
    with JArr assms nl show ?thesis
      by (auto simp: map_of_define_own split: if_splits option.splits)
  next
    case (Some i)
    show ?thesis
    proof (cases "array_index k'")
      case None
      with Some JArr assms nl show ?thesis by (auto split: if_splits)
    next
      case j: (Some j)
      with Some assms(2) have "j \<noteq> i" by (auto dest: array_index_inj)
      with j Some JArr assms nl show ?thesis
        by (auto simp: nth_append nth_Cons' split: if_splits)
    qed
  qed
qed (use assms in \<open>simp_all add: is_object_def\<close>)

lemma Set_kind:
  "Set t k v = Normal t' \<Longrightarrow>
   (\<exists>xs ps. t = JArr xs ps) = (\<exists>xs ps. t' = JArr xs ps) \<and> is_object t' \<and> is_object t"
  by (cases t) (auto simp: is_object_def split: if_splits option.splits completion.splits)

lemma Set_object_Normal:
  "is_object t \<Longrightarrow> k \<noteq> proto_key \<Longrightarrow> (\<And>xs ps. t = JArr xs ps \<Longrightarrow> k \<noteq> str ''length'')
    \<Longrightarrow> \<exists>t'. Set t k v = Normal t'"
  by (cases t) (auto simp: is_object_def split: option.splits)

section \<open>The patch loop\<close>

lemma parseValue_defined: "parseValue raw \<noteq> JUndefined"
  using JSON_parse_cases [of raw] JSON_parse_defined [of raw]
  by (auto simp: parseValue_def)

lemma Get_Set_same':
  assumes "Set t k v = Normal t'" and "v \<noteq> JUndefined" and "is_object t"
    and "is_array t \<Longrightarrow> k \<noteq> str ''length''"
  shows "Get h t' k = Normal v"
proof (cases t)
  case (JObj ps)
  with assms show ?thesis by (auto simp: map_of_define_own split: if_splits)
next
  case (JArr xs ps)
  with assms have "k \<noteq> str ''length''" by (simp add: is_array_def)
  from Get_Set_same [OF assms(1,2) this assms(3)] show ?thesis .
qed (use assms in \<open>simp_all add: is_object_def\<close>)

lemma is_array_Set:
  "Set t k v = Normal t' \<Longrightarrow> is_array t' = is_array t"
  by (cases t) (auto simp: is_array_def split: if_splits option.splits completion.splits)

lemma is_object_Set:
  "Set t k v = Normal t' \<Longrightarrow> is_object t'"
  by (cases t) (auto simp: is_object_def split: if_splits option.splits completion.splits)

lemma forEach_field_patched:
  assumes "is_object t" and "last_field fs proto_key = None"
    and "is_array t \<Longrightarrow> last_field fs (str ''length'') = None"
  shows "\<exists>t'. forEach_field fs t = Normal t' \<and> is_object t' \<and> is_array t' = is_array t
              \<and> patched h fs t t'"
  using assms
proof (induction fs arbitrary: t)
  case Nil
  then show ?case by (simp add: patched_def)
next
  case (Cons f fs)
  from Cons.prems(2) have proto: "last_field fs proto_key = None"
    by (simp split: option.splits)
  have len: "is_array t \<Longrightarrow> last_field fs (str ''length'') = None"
    using Cons.prems(3) by (simp split: option.splits)
  show ?case
  proof (cases "\<exists>k. fkey f = Some k \<and> k \<noteq> []")
    case False
    from Cons.IH [OF Cons.prems(1) proto len] obtain t' where
      t': "forEach_field fs t = Normal t'" "is_object t'" "is_array t' = is_array t"
          "patched h fs t t'" by blast
    from False have "forEach_field (f # fs) t = forEach_field fs t"
      by (cases "fkey f") auto
    moreover from False t'(4) have "patched h (f # fs) t t'"
      by (auto simp: patched_def split: option.splits)
    ultimately show ?thesis using t' by simp
  next
    case True
    then obtain k where k: "fkey f = Some k" "k \<noteq> []" by blast
    from Cons.prems(2) k proto have kp: "k \<noteq> proto_key" by auto
    have kl: "is_array t \<Longrightarrow> k \<noteq> str ''length''"
      using Cons.prems(3) k len by auto
    let ?v = "parseValue (fvalue f)"
    from Set_object_Normal [OF Cons.prems(1) kp, of ?v] kl obtain t1
      where t1: "Set t k ?v = Normal t1" by (auto simp: is_array_def)
    have o1: "is_object t1" using t1 by (rule is_object_Set)
    have a1: "is_array t1 = is_array t" using t1 by (rule is_array_Set)
    from Cons.IH [OF o1 proto] len a1 obtain t' where
      t': "forEach_field fs t1 = Normal t'" "is_object t'" "is_array t' = is_array t1"
          "patched h fs t1 t'" by auto
    from k t1 t'(1) have run: "forEach_field (f # fs) t = Normal t'" by simp
    have "patched h (f # fs) t t'"
      unfolding patched_def
    proof (intro allI impI)
      fix k'
      assume nl: "is_array t \<longrightarrow> k' \<noteq> str ''length''"
      with a1 t'(4) have g: "Get h t' k' =
          (case last_field fs k' of Some v \<Rightarrow> Normal (parseValue v) | None \<Rightarrow> Get h t1 k')"
        by (simp add: patched_def)
      show "Get h t' k' =
          (case last_field (f # fs) k' of Some v \<Rightarrow> Normal (parseValue v) | None \<Rightarrow> Get h t k')"
      proof (cases "last_field fs k'")
        case (Some v)
        with g show ?thesis by simp
      next
        case None
        show ?thesis
        proof (cases "k' = k")
          case True
          from Get_Set_same' [OF t1 parseValue_defined Cons.prems(1)] kl
          have "Get h t1 k = Normal ?v" by simp
          with g None True k show ?thesis by simp
        next
          case False
          have "Get h t1 k' = Get h t k'"
            using t1 False Cons.prems(1)
          proof (rule Get_Set_other)
            fix xs ps
            assume "t = JArr xs ps"
            then have "is_array t" by (simp add: is_array_def)
            with kl nl show "k \<noteq> str ''length'' \<and> k' \<noteq> str ''length''" by simp
          qed
          with g None False k show ?thesis by auto
        qed
      qed
    qed
    with run t' a1 show ?thesis by simp
  qed
qed

lemma applyEdits_object_like:
  assumes "json st = Some raw" and "JSON_parse raw = Normal parsed"
    and "\<not> isSingleUnnamed nodeData"
    and "reduce_get h (Normal parsed) (node_path nodeData) = Normal target"
  shows "applyEdits h nodeData formState st =
     (if is_object target then
        (case forEach_field formState target of
           Normal target' \<Rightarrow>
             Normal (committed (update_at parsed (map ToPropertyKey (node_path nodeData)) target') st)
         | Throw e \<Rightarrow> Normal (alert e st)
         | HostDefined \<Rightarrow> HostDefined)
      else Normal (st\<lparr>editMode := False, closed := True\<rparr>))"
proof -
  have "\<exists>parent. reduce_get h (Normal parsed) (butlast (node_path nodeData)) = Normal parent"
  proof (cases "node_path nodeData = []")
    case True
    then show ?thesis by simp
  next
    case False
    from reduce_get_parent_Normal [OF False assms(4)] show ?thesis .
  qed
  then obtain parent
    where p: "reduce_get h (Normal parsed) (butlast (node_path nodeData)) = Normal parent" ..
  have t: "(if node_path nodeData = [] then Normal parsed
            else reduce_get h (Normal parsed) (node_path nodeData)) = Normal target"
    using assms(4) by (cases "node_path nodeData = []") simp_all
  show ?thesis
    unfolding applyEdits_def applyEdits_try_parsed [OF assms(1,2)]
    using assms(3)
    by (simp add: p t finish_def write_back_def setJson_def setContents_def onClose_def
          setEditMode_def committed_def split: completion.splits)
qed

section \<open>Quoting and reading a string\<close>

lemma hex_val_hex_digit: "d < 16 \<Longrightarrow> hex_val (hex_digit d) = Some d"
proof -
  assume d: "d < 16"
  show ?thesis
  proof (cases "d < 10")
    case True
    then have u: "unat (of_nat (48 + d) :: unit16) = 48 + d"
      by (simp only: unat_of_nat) simp
    with True show ?thesis
      by (simp add: hex_val_def hex_digit_def word_le_nat_alt del: of_nat_add)
  next
    case False
    with d have u: "unat (of_nat (87 + d) :: unit16) = 87 + d"
      by (simp only: unat_of_nat) simp
    with False d show ?thesis
      by (simp add: hex_val_def hex_digit_def word_le_nat_alt del: of_nat_add)
  qed
qed

lemma hex_recompose: "((n div 4096 * 16 + n div 256 mod 16) * 16 + n div 16 mod 16) * 16 + n mod 16 = (n::nat)"
proof -
  define m where "m = n div 16"
  define p where "p = m div 16"
  have e1: "n div 256 = p" unfolding p_def m_def by (simp add: div_mult2_eq [symmetric])
  have e2: "n div 4096 = p div 16" unfolding p_def m_def by (simp add: div_mult2_eq [symmetric])
  have "n = m * 16 + n mod 16" unfolding m_def by simp
  moreover have "m = p * 16 + m mod 16" unfolding p_def by simp
  moreover have "p = p div 16 * 16 + p mod 16" by simp
  ultimately have "n = ((p div 16 * 16 + p mod 16) * 16 + m mod 16) * 16 + n mod 16" by simp
  then show ?thesis by (simp add: e1 e2 m_def [symmetric])
qed

lemma hex4_unicode_escape:
  "unicode_escape c = [0x5C, 0x75, a, b, x, y] \<Longrightarrow> hex4 a b x y = Some c"
proof -
  assume e: "unicode_escape c = [0x5C, 0x75, a, b, x, y]"
  let ?n = "unat c"
  have lt: "?n < 65536" using unsigned_less [of c] by simp
  from e have abxy: "a = hex_digit (?n div 4096)" "b = hex_digit (?n div 256 mod 16)"
    "x = hex_digit (?n div 16 mod 16)" "y = hex_digit (?n mod 16)"
    by (simp_all add: unicode_escape_def Let_def)
  have d1: "?n div 4096 < 16" using lt by simp
  have v: "hex_val a = Some (?n div 4096)" "hex_val b = Some (?n div 256 mod 16)"
    "hex_val x = Some (?n div 16 mod 16)" "hex_val y = Some (?n mod 16)"
    using d1 by (simp_all add: abxy hex_val_hex_digit)
  have "((?n div 4096 * 16 + ?n div 256 mod 16) * 16 + ?n div 16 mod 16) * 16 + ?n mod 16 = ?n"
    by (rule hex_recompose)
  then show ?thesis by (simp add: hex4_def v)
qed

lemma parse_chars_literal:
  "c \<noteq> 0x22 \<Longrightarrow> c \<noteq> 0x5C \<Longrightarrow> \<not> c < 0x20 \<Longrightarrow>
   parse_chars (c # cs) = map_option (\<lambda>(s, rest). (c # s, rest)) (parse_chars cs)"
  by simp

lemma parse_chars_quote_unit:
  "parse_chars (quote_unit c @ cs) = map_option (\<lambda>(s, rest). (c # s, rest)) (parse_chars cs)"
proof -
  consider (bs) "c = 0x08" | (ht) "c = 0x09" | (lf) "c = 0x0A" | (ff) "c = 0x0C" | (cr) "c = 0x0D"
    | (dq) "c = 0x22" | (rs) "c = 0x5C"
    | (uni) "c \<noteq> 0x08" "c \<noteq> 0x09" "c \<noteq> 0x0A" "c \<noteq> 0x0C" "c \<noteq> 0x0D" "c \<noteq> 0x22" "c \<noteq> 0x5C"
        "c < 0x20 \<or> is_lead c \<or> is_trail c"
    | (lit) "c \<noteq> 0x08" "c \<noteq> 0x09" "c \<noteq> 0x0A" "c \<noteq> 0x0C" "c \<noteq> 0x0D" "c \<noteq> 0x22" "c \<noteq> 0x5C"
        "\<not> (c < 0x20 \<or> is_lead c \<or> is_trail c)"
    by blast
  then show ?thesis
  proof cases
    case uni
    obtain a b x y where e: "unicode_escape c = [0x5C, 0x75, a, b, x, y]"
      by (simp add: unicode_escape_def Let_def)
    from hex4_unicode_escape [OF e] have "hex4 a b x y = Some c" .
    with uni e show ?thesis by (simp add: quote_unit_def)
  next
    case lit
    then show ?thesis by (simp add: quote_unit_def)
  qed (simp_all add: quote_unit_def unescape_def)
qed

lemma surrogate_literal:
  "is_lead c \<or> is_trail c \<Longrightarrow> c \<noteq> 0x22 \<and> c \<noteq> 0x5C \<and> \<not> c < 0x20"
  by (auto simp: is_lead_def is_trail_def word_le_nat_alt word_less_nat_alt)

text \<open>A quoted string is read back as the string.\<close>

lemma parse_chars_quote_units:
  "parse_chars (quote_units s @ 0x22 # rest) = Some (s, rest)"
proof (induction s rule: quote_units.induct)
  case 1
  show ?case by simp
next
  case (2 c)
  show ?case by (simp only: quote_units.simps parse_chars_quote_unit) simp
next
  case (3 c d cs)
  show ?case
  proof (cases "is_lead c \<and> is_trail d")
    case True
    with surrogate_literal [of c] surrogate_literal [of d]
    have "c \<noteq> 0x22" "c \<noteq> 0x5C" "\<not> c < 0x20" "d \<noteq> 0x22" "d \<noteq> 0x5C" "\<not> d < 0x20" by auto
    with True "3.IH"(1) show ?thesis by simp
  next
    case False
    with "3.IH"(2) show ?thesis
      by (simp only: quote_units.simps if_False append_assoc parse_chars_quote_unit) simp
  qed
qed

lemma parse_chars_QuoteJSONString:
  "QuoteJSONString s @ rest = 0x22 # (quote_units s @ 0x22 # rest)"
  by (simp add: QuoteJSONString_def)

section \<open>Printing and reading a number\<close>

lemma takeWhile_digits:
  "list_all is_digit ds \<Longrightarrow> rest = [] \<or> \<not> is_digit (hd rest) \<Longrightarrow>
   takeWhile is_digit (ds @ rest) = ds \<and> dropWhile is_digit (ds @ rest) = rest"
proof (induction ds)
  case Nil
  then show ?case by (cases rest) auto
next
  case (Cons d ds)
  then show ?case by simp
qed

lemma is_digit_not_special [simp]:
  "\<not> is_digit 0x2E" "\<not> is_digit 0x65" "\<not> is_digit 0x45" "\<not> is_digit 0x2D" "\<not> is_digit 0x2B"
  "is_digit 0x30"
  by (simp_all add: is_digit_def)

lemma list_all_digits_replicate [simp]: "list_all is_digit (replicate j 0x30)"
  by (induction j) simp_all

lemma list_all_digits_take: "list_all is_digit ds \<Longrightarrow> list_all is_digit (take n ds)"
  by (auto simp: list_all_iff dest: in_set_takeD)

lemma list_all_digits_drop: "list_all is_digit ds \<Longrightarrow> list_all is_digit (drop n ds)"
  by (auto simp: list_all_iff dest: in_set_dropD)

lemma show_nat_Cons: "\<exists>c cs. show_nat a = c # cs \<and> is_digit c"
proof -
  obtain c cs where e: "show_nat a = c # cs" by (cases "show_nat a") simp_all
  moreover from list_all_is_digit_show_nat [of a] e have "is_digit c" by simp
  ultimately show ?thesis by blast
qed

lemma parse_int_part_digits:
  assumes "list_all is_digit ds" "ds \<noteq> []" "hd ds \<noteq> 0x30" "rest = [] \<or> \<not> is_digit (hd rest)"
  shows "parse_int_part (ds @ rest) = Some (ds, rest)"
proof -
  from assms obtain c cs where ds: "ds = c # cs" "is_digit c" "c \<noteq> 0x30"
    by (cases ds) auto
  from takeWhile_digits [OF assms(1,4)] ds show ?thesis
    by (simp add: parse_int_part_def)
qed

lemma parse_int_part_zero: "parse_int_part (0x30 # rest) = Some ([0x30], rest)"
  by (simp add: parse_int_part_def)

lemma parse_fraction_digits:
  assumes "list_all is_digit ds" "ds \<noteq> []" "rest = [] \<or> \<not> is_digit (hd rest)"
  shows "parse_fraction (0x2E # ds @ rest) = Some (ds, rest)"
  using takeWhile_digits [OF assms(1,3)] assms(2) by (simp add: parse_fraction_def)

lemma parse_fraction_none:
  "rest = [] \<or> hd rest \<noteq> 0x2E \<Longrightarrow> parse_fraction rest = Some ([], rest)"
  by (cases rest) (auto simp: parse_fraction_def)

lemma parse_exponent_none:
  "rest = [] \<or> (hd rest \<noteq> 0x65 \<and> hd rest \<noteq> 0x45) \<Longrightarrow> parse_exponent rest = Some (0, rest)"
  by (cases rest) (auto simp: parse_exponent_def)

lemma parse_exponent_digits:
  assumes "rest = [] \<or> \<not> is_digit (hd rest)"
  shows "parse_exponent (0x65 # (if x < 0 then [0x2D] else [0x2B]) @ show_nat (nat \<bar>x\<bar>) @ rest)
           = Some (x, rest)"
proof -
  have tw: "takeWhile is_digit (show_nat n @ rest) = show_nat n"
      "dropWhile is_digit (show_nat n @ rest) = rest" for n
    using takeWhile_digits [OF list_all_is_digit_show_nat assms] by simp_all
  show ?thesis
    by (cases "x < 0") (simp_all add: parse_exponent_def tw Let_def)
qed

lemma Number_toString_negative:
  "0 < a \<Longrightarrow> Number_toString (Dec (- int a) e) = 0x2D # Number_toString (Dec (int a) e)"
  by (simp add: Number_toString_def Let_def str_def)

lemma read_digits_leading_zeros:
  "read_digits (0x30 # replicate j 0x30 @ ds) = read_digits ds"
proof -
  have "read_digits ((0x30 # replicate j 0x30) @ ds) = read_digits (0x30 # replicate j 0x30) * 10 ^ length ds + read_digits ds"
    by (rule read_digits_append)
  moreover have "read_digits (0x30 # replicate j 0x30) = 0"
    using read_digits_zeros [of "Suc j"] by simp
  ultimately show ?thesis by simp
qed

text \<open>The three parts of the literal that \<open>Number_toString\<close> prints for a positive
  number, and the number they denote.\<close>

lemma parse_positive:
  assumes a: "0 < a" and rest: "number_end rest"
  shows "\<exists>ip fp ex r2 r3.
           parse_int_part (Number_toString (Dec (int a) e) @ rest) = Some (ip, r2)
         \<and> parse_fraction r2 = Some (fp, r3)
         \<and> parse_exponent r3 = Some (ex, rest)
         \<and> norm_dec (int (read_digits (ip @ fp))) (ex - int (length fp)) = norm_dec (int a) e
         \<and> norm_dec (- int (read_digits (ip @ fp))) (ex - int (length fp)) = norm_dec (- int a) e"
proof -
  let ?s = "show_nat a"
  let ?k = "int (length ?s)"
  let ?n = "e + ?k"
  have sd: "list_all is_digit ?s" by (rule list_all_is_digit_show_nat)
  have sne: "?s \<noteq> []" by simp
  have shd: "hd ?s \<noteq> 0x30" using a by (rule hd_show_nat)
  have kpos: "0 < ?k" by simp
  from rest have r1: "rest = [] \<or> \<not> is_digit (hd rest)"
    and r2: "rest = [] \<or> hd rest \<noteq> 0x2E"
    and r3: "rest = [] \<or> (hd rest \<noteq> 0x65 \<and> hd rest \<noteq> 0x45)"
    by (auto simp: number_end_def)
  have an: "int a \<noteq> 0" "- int a \<noteq> 0" using a by simp_all
  consider (plain) "?k \<le> ?n" "?n \<le> 21"
    | (point) "\<not> (?k \<le> ?n \<and> ?n \<le> 21)" "0 < ?n" "?n \<le> 21"
    | (small) "\<not> (?k \<le> ?n \<and> ?n \<le> 21)" "\<not> (0 < ?n \<and> ?n \<le> 21)" "-6 < ?n" "?n \<le> 0"
    | (expo) "\<not> (?k \<le> ?n \<and> ?n \<le> 21)" "\<not> (0 < ?n \<and> ?n \<le> 21)" "\<not> (-6 < ?n \<and> ?n \<le> 0)"
    by blast
  then show ?thesis
  proof cases
    case plain
    define j where "j = nat (?n - ?k)"
    define ip where "ip = ?s @ replicate j 0x30"
    have printed: "Number_toString (Dec (int a) e) = ip"
      using a plain by (simp add: Number_toString_def Let_def ip_def j_def)
    have e: "e = int j" using plain by (simp add: j_def)
    have ipd: "list_all is_digit ip" "ip \<noteq> []" "hd ip \<noteq> 0x30"
      using sd sne shd by (simp_all add: ip_def)
    have "parse_int_part (ip @ rest) = Some (ip, rest)"
      using ipd r1 by (rule parse_int_part_digits)
    moreover have "parse_fraction rest = Some ([], rest)" using r2 by (rule parse_fraction_none)
    moreover have "parse_exponent rest = Some (0, rest)" using r3 by (rule parse_exponent_none)
    moreover have rd: "int (read_digits (ip @ [])) = int a * 10 ^ j"
      by (simp add: ip_def read_digits_append)
    have "norm_dec (int (read_digits (ip @ []))) (0 - int (length ([]::jsstring))) = norm_dec (int a) e"
      unfolding rd e using norm_dec_times_power [OF an(1), of j 0] by simp
    moreover have "norm_dec (- int (read_digits (ip @ []))) (0 - int (length ([]::jsstring))) = norm_dec (- int a) e"
      unfolding rd e using norm_dec_times_power [OF an(2), of j 0] by simp
    ultimately show ?thesis unfolding printed by blast
  next
    case point
    define ip where "ip = take (nat ?n) ?s"
    define fp where "fp = drop (nat ?n) ?s"
    from point have nk: "nat ?n < length ?s" "0 < nat ?n" by auto
    have printed: "Number_toString (Dec (int a) e) = ip @ 0x2E # fp"
      using a point by (simp add: Number_toString_def Let_def str_def ip_def fp_def)
    have ipd: "list_all is_digit ip" "ip \<noteq> []" "hd ip \<noteq> 0x30"
      using sd shd nk by (simp_all add: ip_def list_all_digits_take hd_take)
    have fpd: "list_all is_digit fp" "fp \<noteq> []"
      using sd nk by (simp_all add: fp_def list_all_digits_drop)
    have p1: "parse_int_part (ip @ (0x2E # fp @ rest)) = Some (ip, 0x2E # fp @ rest)"
      using ipd by (rule parse_int_part_digits) simp
    have p2: "parse_fraction (0x2E # fp @ rest) = Some (fp, rest)"
      using fpd r1 by (rule parse_fraction_digits)
    have p3: "parse_exponent rest = Some (0, rest)" using r3 by (rule parse_exponent_none)
    have rd: "read_digits (ip @ fp) = a" by (simp add: ip_def fp_def)
    have xe: "0 - int (length fp) = e" using nk by (simp add: fp_def)
    have "norm_dec (int (read_digits (ip @ fp))) (0 - int (length fp)) = norm_dec (int a) e"
         "norm_dec (- int (read_digits (ip @ fp))) (0 - int (length fp)) = norm_dec (- int a) e"
      by (simp_all only: rd xe)
    with p1 p2 p3 show ?thesis unfolding printed
      by (intro exI [of _ "ip"] exI [of _ "fp"] exI [of _ "0"] exI [of _ "0x2E # fp @ rest"] exI [of _ "rest"]) simp
  next
    case small
    define fp where "fp = replicate (nat (- ?n)) 0x30 @ ?s"
    have printed: "Number_toString (Dec (int a) e) = [0x30] @ 0x2E # fp"
      using a small by (simp add: Number_toString_def Let_def str_def fp_def)
    have fpd: "list_all is_digit fp" "fp \<noteq> []"
      using sd by (simp_all add: fp_def)
    have p1: "parse_int_part ([0x30] @ (0x2E # fp @ rest)) = Some ([0x30], 0x2E # fp @ rest)"
      by (simp add: parse_int_part_zero)
    have p2: "parse_fraction (0x2E # fp @ rest) = Some (fp, rest)"
      using fpd r1 by (rule parse_fraction_digits)
    have p3: "parse_exponent rest = Some (0, rest)" using r3 by (rule parse_exponent_none)
    have rd: "read_digits ([0x30] @ fp) = a"
      using read_digits_leading_zeros [of "nat (- ?n)" ?s] by (simp add: fp_def)
    have xe: "0 - int (length fp) = e" using small by (simp add: fp_def)
    have "norm_dec (int (read_digits ([0x30] @ fp))) (0 - int (length fp)) = norm_dec (int a) e"
         "norm_dec (- int (read_digits ([0x30] @ fp))) (0 - int (length fp)) = norm_dec (- int a) e"
      by (simp_all only: rd xe)
    with p1 p2 p3 show ?thesis unfolding printed
      by (intro exI [of _ "[0x30]"] exI [of _ "fp"] exI [of _ "0"] exI [of _ "0x2E # fp @ rest"] exI [of _ "rest"]) simp
  next
    case expo
    define x where "x = ?n - 1"
    define es where "es = (if x < 0 then [0x2D] else [0x2B]) @ show_nat (nat \<bar>x\<bar>)"
    have p3: "parse_exponent (0x65 # es @ rest) = Some (x, rest)"
      using parse_exponent_digits [OF r1, of x] by (simp add: es_def)
    show ?thesis
    proof (cases "?k = 1")
      case True
      have printed: "Number_toString (Dec (int a) e) = ?s @ 0x65 # es"
        using a expo True by (auto simp: Number_toString_def Let_def str_def es_def x_def)
      have p1: "parse_int_part (?s @ (0x65 # es @ rest)) = Some (?s, 0x65 # es @ rest)"
        using sd sne shd by (rule parse_int_part_digits) simp
      have p2: "parse_fraction (0x65 # es @ rest) = Some ([], 0x65 # es @ rest)"
        by (rule parse_fraction_none) simp
      have rd: "read_digits (?s @ []) = a" by simp
      have xe: "x - int (length ([]::jsstring)) = e" using True by (simp add: x_def)
      have "norm_dec (int (read_digits (?s @ []))) (x - int (length ([]::jsstring))) = norm_dec (int a) e"
           "norm_dec (- int (read_digits (?s @ []))) (x - int (length ([]::jsstring))) = norm_dec (- int a) e"
        by (simp_all only: rd xe)
      with p1 p2 p3 show ?thesis unfolding printed
        by (intro exI [of _ "show_nat a"] exI [of _ "[]"] exI [of _ "x"] exI [of _ "0x65 # es @ rest"] exI [of _ "0x65 # es @ rest"]) simp
    next
      case False
      define ip where "ip = take 1 ?s"
      define fp where "fp = drop 1 ?s"
      from False kpos have k2: "1 < length ?s" by (cases "show_nat a") auto
      have printed: "Number_toString (Dec (int a) e) = ip @ 0x2E # fp @ 0x65 # es"
        using a expo False
        by (auto simp: Number_toString_def Let_def str_def es_def x_def ip_def fp_def)
      have ipd: "list_all is_digit ip" "ip \<noteq> []" "hd ip \<noteq> 0x30"
        using sd sne shd by (simp_all add: ip_def list_all_digits_take hd_take)
      have fpd: "list_all is_digit fp" "fp \<noteq> []"
        using sd k2 by (simp_all add: fp_def list_all_digits_drop)
      have p1: "parse_int_part (ip @ (0x2E # fp @ 0x65 # es @ rest))
                  = Some (ip, 0x2E # fp @ 0x65 # es @ rest)"
        using ipd by (rule parse_int_part_digits) simp
      have p2: "parse_fraction (0x2E # fp @ (0x65 # es @ rest)) = Some (fp, 0x65 # es @ rest)"
        using fpd by (rule parse_fraction_digits) simp
      have rd: "read_digits (ip @ fp) = a" by (simp add: ip_def fp_def)
      have xe: "x - int (length fp) = e" using k2 by (simp add: x_def fp_def)
      have "norm_dec (int (read_digits (ip @ fp))) (x - int (length fp)) = norm_dec (int a) e"
           "norm_dec (- int (read_digits (ip @ fp))) (x - int (length fp)) = norm_dec (- int a) e"
        by (simp_all only: rd xe)
      with p1 p2 p3 show ?thesis unfolding printed
        by (intro exI [of _ "ip"] exI [of _ "fp"] exI [of _ "x"] exI [of _ "0x2E # fp @ 0x65 # es @ rest"] exI [of _ "0x65 # es @ rest"]) simp
    qed
  qed
qed

lemma Number_toString_first:
  "0 < a \<Longrightarrow> \<exists>c cs. Number_toString (Dec (int a) e) = c # cs \<and> is_digit c"
proof -
  assume a: "0 < a"
  obtain c cs where s: "show_nat a = c # cs" "is_digit c"
    using show_nat_Cons [of a] by blast
  with a show ?thesis
    by (auto simp: Number_toString_def Let_def str_def take_Cons' split: if_splits)
qed

text \<open>The text of a number is read back as the number.\<close>

lemma parse_number_Number_toString:
  assumes "number_end rest"
  shows "parse_number (Number_toString (Dec m e) @ rest) = Some (norm_dec m e, rest)"
proof -
  consider (zero) "m = 0" | (pos) "0 < m" | (neg) "m < 0" by linarith
  then show ?thesis
  proof cases
    case zero
    from assms have "parse_fraction rest = Some ([], rest)" "parse_exponent rest = Some (0, rest)"
      by (auto simp: number_end_def intro: parse_fraction_none parse_exponent_none)
    with zero show ?thesis
      by (simp add: Number_toString_def str_def parse_number_def parse_int_part_def
            read_digits_def digit_val_def)
  next
    case pos
    define a where "a = nat m"
    with pos have m: "m = int a" "0 < a" by simp_all
    from parse_positive [OF m(2) assms, of e] obtain ip fp ex r2 r3 where
      p: "parse_int_part (Number_toString (Dec (int a) e) @ rest) = Some (ip, r2)"
         "parse_fraction r2 = Some (fp, r3)" "parse_exponent r3 = Some (ex, rest)"
         "norm_dec (int (read_digits (ip @ fp))) (ex - int (length fp)) = norm_dec (int a) e"
      by blast
    from Number_toString_first [OF m(2), of e] obtain c cs where
      f: "Number_toString (Dec (int a) e) = c # cs" "is_digit c" by blast
    then have "c \<noteq> 0x2D" by auto
    with p f show ?thesis
      by (simp add: parse_number_def m(1) Let_def)
  next
    case neg
    define a where "a = nat (- m)"
    with neg have m: "m = - int a" "0 < a" by simp_all
    from parse_positive [OF m(2) assms, of e] obtain ip fp ex r2 r3 where
      p: "parse_int_part (Number_toString (Dec (int a) e) @ rest) = Some (ip, r2)"
         "parse_fraction r2 = Some (fp, r3)" "parse_exponent r3 = Some (ex, rest)"
         "norm_dec (- int (read_digits (ip @ fp))) (ex - int (length fp)) = norm_dec (- int a) e"
      by blast
    with Number_toString_negative [OF m(2), of e] show ?thesis
      by (simp add: parse_number_def m(1) Let_def)
  qed
qed

section \<open>Reading a serialised value\<close>

lemma SerializeJSONArray_map: "SerializeJSONArray ind xs = map (elem_text ind) xs"
  by (induction xs) (simp_all add: elem_text_def)

lemma jsonify_elements_map: "jsonify_elements xs = map elem_val xs"
  by (induction xs) (simp_all add: elem_val_def)

lemma Serialize_None: "SerializeJSONProperty ind v = None \<longleftrightarrow> v = JUndefined"
  by (cases v) simp_all

lemma spaces_simps [simp]: "spaces []" "spaces (ind @ gap) = spaces ind"
  by (simp_all add: spaces_def gap_def str_def)

lemma skip_ws_spaces: "spaces ind \<Longrightarrow> skip_ws (ind @ cs) = skip_ws cs"
  by (induction ind) (simp_all add: spaces_def skip_ws_def is_ws_def)

lemma skip_ws_newline: "spaces ind \<Longrightarrow> skip_ws (0x0A # ind @ cs) = skip_ws cs"
  using skip_ws_spaces [of ind cs] by (simp add: skip_ws_def is_ws_def)

lemma skip_ws_space: "skip_ws (0x20 # cs) = skip_ws cs"
  by (simp add: skip_ws_def is_ws_def)

lemma skip_ws_stop: "\<not> is_ws c \<Longrightarrow> skip_ws (c # cs) = c # cs"
  by (simp add: skip_ws_def)

lemma delim_number_end: "delim rest \<Longrightarrow> number_end rest"
  by (auto simp: delim_def number_end_def is_digit_def)

lemma Number_toString_start:
  "\<exists>c cs. Number_toString x = c # cs \<and> (c = 0x2D \<or> is_digit c)"
proof (cases x)
  case (Dec m e)
  consider (zero) "m = 0" | (pos) "0 < m" | (neg) "m < 0" by linarith
  then show ?thesis
  proof cases
    case zero
    with Dec show ?thesis by (simp add: Number_toString_def str_def)
  next
    case pos
    then have "m = int (nat m)" "0 < nat m" by simp_all
    with Number_toString_first [of "nat m" e] Dec show ?thesis by auto
  next
    case neg
    then have "m = - int (nat (- m))" "0 < nat (- m)" by simp_all
    with Number_toString_negative [of "nat (- m)" e] Dec show ?thesis by auto
  qed
qed

lemma is_digit_cases:
  "is_digit c \<Longrightarrow> c \<noteq> 0x7B \<and> c \<noteq> 0x5B \<and> c \<noteq> 0x22 \<and> c \<noteq> 0x74 \<and> c \<noteq> 0x66 \<and> c \<noteq> 0x6E
     \<and> c \<noteq> 0x5D \<and> c \<noteq> 0x7D \<and> \<not> is_ws c"
  by (auto simp: is_digit_def is_ws_def)

text \<open>The first character of a serialised value is no white space and closes nothing.\<close>

lemma elem_text_start:
  "\<exists>c cs. elem_text ind v = c # cs \<and> \<not> is_ws c \<and> c \<noteq> 0x5D \<and> c \<noteq> 0x7D"
proof (cases v)
  case (JNum x)
  from Number_toString_start [of x] obtain c cs where
    "Number_toString x = c # cs" "c = 0x2D \<or> is_digit c" by blast
  with JNum is_digit_cases [of c] show ?thesis
    by (auto simp: elem_text_def is_ws_def)
next
  case (JArr xs ps)
  then show ?thesis
    by (cases "SerializeJSONArray (ind @ gap) xs") (simp_all add: elem_text_def str_def is_ws_def)
next
  case (JObj ps)
  then show ?thesis
    by (cases "SerializeJSONObject (ind @ gap) ps") (simp_all add: elem_text_def str_def is_ws_def)
qed (simp_all add: elem_text_def str_def is_ws_def QuoteJSONString_def)

lemma skip_ws_elem_text: "skip_ws (elem_text ind v @ cs) = elem_text ind v @ cs"
  using elem_text_start [of ind v] by (auto simp: skip_ws_stop)

lemma SerializeJSONObject_map:
  "SerializeJSONObject ind ps = map (member_text ind) (defined_members ps)"
  by (induction ps)
     (auto simp: member_text_def defined_members_def elem_text_def str_def Serialize_None
           split: option.splits)

lemma jsonify_members_map:
  "jsonify_members ps = map (\<lambda>p. (fst p, jsonify (snd p))) (defined_members ps)"
  by (induction ps) (auto simp: defined_members_def)

lemma parse_elements_join:
  assumes "xs \<noteq> []"
    and "spaces ind'" and "spaces ind"
    and "\<And>x n rest. x \<in> set xs \<Longrightarrow> delim rest \<Longrightarrow> length (elem_text ind' x @ rest) \<le> n
           \<Longrightarrow> parse_value n (elem_text ind' x @ rest) = Some (elem_val x, rest)"
    and "length (join (0x2C # 0x0A # ind') (map (elem_text ind') xs) @ 0x0A # ind @ 0x5D # rest) \<le> n"
  shows "parse_elements n acc
           (join (0x2C # 0x0A # ind') (map (elem_text ind') xs) @ 0x0A # ind @ 0x5D # rest)
         = Some (JArr (acc @ map elem_val xs) [], rest)"
  using assms(1,4,5)
proof (induction xs arbitrary: acc n rule: list_nonempty_induct)
  case (single x)
  have d: "delim (0x0A # ind @ 0x5D # rest)" by (simp add: delim_def)
  have "parse_value n (elem_text ind' x @ 0x0A # ind @ 0x5D # rest)
        = Some (elem_val x, 0x0A # ind @ 0x5D # rest)"
    using single.prems(2) by (intro single.prems(1) d) simp_all
  moreover have "skip_ws (0x0A # ind @ 0x5D # rest) = 0x5D # rest"
    using skip_ws_newline [OF assms(3), of "0x5D # rest"] by (simp add: skip_ws_stop is_ws_def)
  ultimately show ?case
    by (subst parse_elements_step) simp
next
  case (cons x xs)
  then obtain y ys where xs: "xs = y # ys" by (cases xs) auto
  let ?X = "join (0x2C # 0x0A # ind') (map (elem_text ind') xs) @ 0x0A # ind @ 0x5D # rest"
  let ?R = "0x2C # 0x0A # ind' @ ?X"
  have whole: "join (0x2C # 0x0A # ind') (map (elem_text ind') (x # xs)) @ 0x0A # ind @ 0x5D # rest
               = elem_text ind' x @ ?R"
    by (simp add: xs)
  have len: "length (elem_text ind' x @ ?R) \<le> n"
    using cons.prems(2) unfolding whole .
  then obtain m where n: "n = Suc m" by (cases n) auto
  have d: "delim ?R" by (simp add: delim_def)
  have pv: "parse_value n (elem_text ind' x @ ?R) = Some (elem_val x, ?R)"
    using len by (intro cons.prems(1) d) simp_all
  have sk: "skip_ws ?R = ?R" by (simp add: skip_ws_stop is_ws_def)
  have start: "skip_ws (0x0A # ind' @ ?X) = ?X"
  proof -
    have "?X = elem_text ind' y @ (drop (length (elem_text ind' y)) ?X)"
      by (cases ys) (simp_all add: xs)
    then have "skip_ws ?X = ?X" using skip_ws_elem_text by metis
    with skip_ws_newline [OF assms(2), of ?X] show ?thesis by simp
  qed
  have lenm: "length ?X \<le> m" using len n by simp
  have rec: "parse_elements m (acc @ [elem_val x]) ?X
             = Some (JArr ((acc @ [elem_val x]) @ map elem_val xs) [], rest)"
    using cons.prems(1) lenm by (intro cons.IH) simp_all
  show ?case
    unfolding whole
    apply (subst parse_elements_step)
    apply (simp only: pv option.case prod.case sk list.case)
    apply (simp add: n start rec)
    done
qed

lemma parse_members_join:
  assumes "ps \<noteq> []"
    and "spaces ind'" and "spaces ind"
    and "\<And>p n rest. p \<in> set ps \<Longrightarrow> delim rest \<Longrightarrow> length (elem_text ind' (snd p) @ rest) \<le> n
           \<Longrightarrow> parse_value n (elem_text ind' (snd p) @ rest) = Some (jsonify (snd p), rest)"
    and "length (join (0x2C # 0x0A # ind') (map (member_text ind') ps) @ 0x0A # ind @ 0x7D # rest) \<le> n"
  shows "parse_members n acc
           (join (0x2C # 0x0A # ind') (map (member_text ind') ps) @ 0x0A # ind @ 0x7D # rest)
         = Some (JObj (define_all acc (map (\<lambda>p. (fst p, jsonify (snd p))) ps)), rest)"
  using assms(1,4,5)
proof (induction ps arbitrary: acc n rule: list_nonempty_induct)
  case (single p)
  let ?T = "0x0A # ind @ 0x7D # rest"
  have d: "delim ?T" by (simp add: delim_def)
  have whole: "join (0x2C # 0x0A # ind') (map (member_text ind') [p]) @ ?T
      = 0x22 # (quote_units (fst p) @ 0x22 # (0x3A # 0x20 # elem_text ind' (snd p) @ ?T))"
    by (simp add: member_text_def QuoteJSONString_def)
  have pv: "parse_value n (elem_text ind' (snd p) @ ?T) = Some (jsonify (snd p), ?T)"
    using single.prems(2) unfolding whole by (intro single.prems(1) d) simp_all
  have sk: "skip_ws ?T = 0x7D # rest"
    using skip_ws_newline [OF assms(3), of "0x7D # rest"] by (simp add: skip_ws_stop is_ws_def)
  show ?case
    unfolding whole
    apply (subst parse_members_step)
    apply (simp add: parse_chars_quote_units skip_ws_stop is_ws_def skip_ws_space
        skip_ws_elem_text pv sk define_all_def split: prod.splits)
    done
next
  case (cons p ps)
  then obtain y ys where ps: "ps = y # ys" by (cases ps) auto
  let ?X = "join (0x2C # 0x0A # ind') (map (member_text ind') ps) @ 0x0A # ind @ 0x7D # rest"
  let ?R = "0x2C # 0x0A # ind' @ ?X"
  have whole: "join (0x2C # 0x0A # ind') (map (member_text ind') (p # ps)) @ 0x0A # ind @ 0x7D # rest
      = 0x22 # (quote_units (fst p) @ 0x22 # (0x3A # 0x20 # elem_text ind' (snd p) @ ?R))"
    by (simp add: ps member_text_def QuoteJSONString_def)
  have len: "length (0x22 # (quote_units (fst p) @ 0x22 # (0x3A # 0x20 # elem_text ind' (snd p) @ ?R))) \<le> n"
    using cons.prems(2) unfolding whole .
  then obtain m where n: "n = Suc m" by (cases n) auto
  have d: "delim ?R" by (simp add: delim_def)
  have pv: "parse_value n (elem_text ind' (snd p) @ ?R) = Some (jsonify (snd p), ?R)"
    using len by (intro cons.prems(1) d) simp_all
  have sk: "skip_ws ?R = ?R" by (simp add: skip_ws_stop is_ws_def)
  have start: "skip_ws (0x0A # ind' @ ?X) = ?X"
  proof -
    have "?X = 0x22 # tl ?X"
      by (cases ys) (simp_all add: ps member_text_def QuoteJSONString_def)
    then have "skip_ws ?X = ?X" using skip_ws_stop [of "0x22" "tl ?X"] by (simp add: is_ws_def)
    with skip_ws_newline [OF assms(2), of ?X] show ?thesis by simp
  qed
  have lenm: "length ?X \<le> m" using len n by simp
  have rec: "parse_members m (define_own (fst p) (jsonify (snd p)) acc) ?X
             = Some (JObj (define_all (define_own (fst p) (jsonify (snd p)) acc)
                  (map (\<lambda>p. (fst p, jsonify (snd p))) ps)), rest)"
    using cons.prems(1) lenm by (intro cons.IH) simp_all
  show ?case
    unfolding whole
    apply (subst parse_members_step)
    apply (simp only: list.case)
    apply (simp add: parse_chars_quote_units skip_ws_stop is_ws_def skip_ws_space
        skip_ws_elem_text pv [unfolded n] sk n start rec define_all_def split: prod.splits)
    done
qed

lemma parse_value_array:
  "skip_ws cs = d # r \<Longrightarrow> d \<noteq> 0x5D \<Longrightarrow> parse_value (Suc m) (0x5B # cs) = parse_elements m [] (d # r)"
  by (simp add: parse_value_step)

lemma parse_value_object:
  "skip_ws cs = d # r \<Longrightarrow> d \<noteq> 0x7D \<Longrightarrow> parse_value (Suc m) (0x7B # cs) = parse_members m [] (d # r)"
  by (simp add: parse_value_step)

lemma parse_value_number:
  "c = 0x2D \<or> is_digit c \<Longrightarrow>
   parse_value (Suc m) (c # cs) = (case parse_number (c # cs) of None \<Rightarrow> None | Some (x, r) \<Rightarrow> Some (JNum x, r))"
  using is_digit_cases [of c] by (auto simp: parse_value_step)

lemma elem_text_array:
  "xs \<noteq> [] \<Longrightarrow> elem_text ind (JArr xs ps) @ rest
     = 0x5B # 0x0A # (ind @ gap) @ (join (0x2C # 0x0A # (ind @ gap)) (map (elem_text (ind @ gap)) xs)
         @ 0x0A # ind @ 0x5D # rest)"
  by (cases xs) (simp_all add: elem_text_def SerializeJSONArray_map str_def)

lemma elem_text_object:
  "defined_members ps \<noteq> [] \<Longrightarrow> elem_text ind (JObj ps) @ rest
     = 0x7B # 0x0A # (ind @ gap) @ (join (0x2C # 0x0A # (ind @ gap)) (map (member_text (ind @ gap)) (defined_members ps))
         @ 0x0A # ind @ 0x7D # rest)"
  by (cases "defined_members ps") (simp_all add: elem_text_def SerializeJSONObject_map str_def)

text \<open>The text of a value within a serialised document, at any indentation and before
  any rest that begins with a comma or a line feed, is read back as the value it
  denotes, and the rest is left.\<close>

lemma parse_value_elem_text:
  "spaces ind \<Longrightarrow> delim rest \<Longrightarrow> length (elem_text ind v @ rest) \<le> n
   \<Longrightarrow> parse_value n (elem_text ind v @ rest) = Some (elem_val v, rest)"
proof (induction v arbitrary: ind rest n)
  case JUndefined
  then obtain m where "n = Suc m" by (cases n) (auto simp: elem_text_def str_def)
  then show ?case
    by (simp add: elem_text_def elem_val_def str_def parse_value_step parse_literal_def)
next
  case JNull
  then obtain m where "n = Suc m" by (cases n) (auto simp: elem_text_def str_def)
  then show ?case
    by (simp add: elem_text_def elem_val_def str_def parse_value_step parse_literal_def)
next
  case (JBool b)
  then obtain m where "n = Suc m" by (cases n; cases b) (auto simp: elem_text_def str_def)
  then show ?case
    by (cases b) (simp_all add: elem_text_def elem_val_def str_def parse_value_step parse_literal_def)
next
  case (JNum x)
  obtain m e where x: "x = Dec m e" by (cases x)
  from Number_toString_start [of x] obtain c cs where
    t: "Number_toString x = c # cs" and c: "c = 0x2D \<or> is_digit c" by blast
  from JNum.prems t obtain k where n: "n = Suc k" by (cases n) (auto simp: elem_text_def)
  have "parse_number (Number_toString x @ rest) = Some (norm_dec m e, rest)"
    unfolding x using JNum.prems(2) by (intro parse_number_Number_toString delim_number_end)
  then have "parse_number (c # cs @ rest) = Some (norm_dec m e, rest)" by (simp add: t)
  with parse_value_number [OF c, of k "cs @ rest"] show ?case
    using t by (simp add: elem_text_def elem_val_def n x)
next
  case (JStr s)
  then obtain m where "n = Suc m" by (cases n) (auto simp: elem_text_def QuoteJSONString_def)
  then show ?case
    by (simp add: elem_text_def elem_val_def QuoteJSONString_def parse_value_step
        parse_chars_quote_units)
next
  case (JArr xs ps)
  show ?case
  proof (cases "xs = []")
    case True
    from JArr.prems True obtain m where "n = Suc m"
      by (cases n) (auto simp: elem_text_def str_def)
    with True show ?thesis
      by (simp add: elem_text_def elem_val_def str_def parse_value_step skip_ws_stop is_ws_def)
  next
    case False
    define ind' where "ind' = ind @ gap"
    define X where "X = join (0x2C # 0x0A # ind') (map (elem_text ind') xs) @ 0x0A # ind @ 0x5D # rest"
    have sp: "spaces ind'" using JArr.prems(1) by (simp add: ind'_def)
    have whole: "elem_text ind (JArr xs ps) @ rest = 0x5B # 0x0A # ind' @ X"
      using elem_text_array [OF False, of ind ps rest] by (simp add: ind'_def X_def)
    from JArr.prems(3) obtain m where n: "n = Suc m" and lenm: "length X \<le> m"
      unfolding whole by (cases n) auto
    obtain y ys where xs: "xs = y # ys" using False by (cases xs) auto
    have "X = elem_text ind' y @ drop (length (elem_text ind' y)) X"
      by (cases ys) (simp_all add: X_def xs)
    with elem_text_start [of ind' y] obtain d r where
      X: "X = d # r" and d: "\<not> is_ws d" "d \<noteq> 0x5D"
      by (metis append_Cons)
    have "skip_ws (0x0A # ind' @ X) = d # r"
      using skip_ws_newline [OF sp, of X] d by (simp add: X skip_ws_stop)
    from parse_value_array [OF this d(2), of m]
    have "parse_value n (0x5B # 0x0A # ind' @ X) = parse_elements m [] X"
      by (simp add: n X)
    also have "\<dots> = Some (JArr ([] @ map elem_val xs) [], rest)"
      unfolding X_def
    proof (rule parse_elements_join [OF False sp JArr.prems(1)])
      fix x n rest
      assume "x \<in> set xs" "delim rest" "length (elem_text ind' x @ rest) \<le> n"
      then show "parse_value n (elem_text ind' x @ rest) = Some (elem_val x, rest)"
        using sp by (intro JArr.IH(1))
    next
      show "length (join (0x2C # 0x0A # ind') (map (elem_text ind') xs) @ 0x0A # ind @ 0x5D # rest) \<le> m"
        using lenm by (simp add: X_def)
    qed
    finally show ?thesis
      unfolding whole by (simp add: elem_val_def jsonify_elements_map)
  qed
next
  case (JObj ps)
  define qs where "qs = defined_members ps"
  have js: "elem_val (JObj ps) = JObj (define_all [] (map (\<lambda>p. (fst p, jsonify (snd p))) qs))"
    by (simp add: elem_val_def define_all_def jsonify_members_map qs_def)
  show ?case
  proof (cases "qs = []")
    case True
    then have t: "elem_text ind (JObj ps) = [0x7B, 0x7D]"
      by (simp add: elem_text_def SerializeJSONObject_map qs_def str_def)
    from JObj.prems obtain m where "n = Suc m"
      by (cases n) (auto simp: t)
    with True show ?thesis
      by (simp add: t js define_all_def parse_value_step skip_ws_stop is_ws_def)
  next
    case False
    define ind' where "ind' = ind @ gap"
    define X where "X = join (0x2C # 0x0A # ind') (map (member_text ind') qs) @ 0x0A # ind @ 0x7D # rest"
    have sp: "spaces ind'" using JObj.prems(1) by (simp add: ind'_def)
    have whole: "elem_text ind (JObj ps) @ rest = 0x7B # 0x0A # ind' @ X"
      using elem_text_object [of ps ind rest] False by (simp add: ind'_def X_def qs_def)
    from JObj.prems(3) obtain m where n: "n = Suc m" and lenm: "length X \<le> m"
      unfolding whole by (cases n) auto
    obtain y ys where xs: "qs = y # ys" using False by (cases qs) auto
    have X: "X = 0x22 # tl X"
      by (cases ys) (simp_all add: X_def xs member_text_def QuoteJSONString_def)
    have "skip_ws (0x0A # ind' @ X) = 0x22 # tl X"
      using skip_ws_newline [OF sp, of X] skip_ws_stop [of "0x22" "tl X"] X
      by (simp add: is_ws_def)
    from parse_value_object [OF this, of m]
    have "parse_value n (0x7B # 0x0A # ind' @ X) = parse_members m [] X"
      using X by (simp add: n)
    also have "\<dots> = Some (JObj (define_all [] (map (\<lambda>p. (fst p, jsonify (snd p))) qs)), rest)"
      unfolding X_def
    proof (rule parse_members_join [OF False sp JObj.prems(1)])
      fix p n rest
      assume p: "p \<in> set qs" and "delim rest" "length (elem_text ind' (snd p) @ rest) \<le> n"
      moreover from p have "p \<in> set ps" "snd p \<noteq> JUndefined"
        by (simp_all add: qs_def defined_members_def)
      moreover have "snd p \<in> Basic_BNFs.snds p" by (cases p) simp
      ultimately have "parse_value n (elem_text ind' (snd p) @ rest) = Some (elem_val (snd p), rest)"
        using sp by (intro JObj.IH)
      with \<open>snd p \<noteq> JUndefined\<close>
      show "parse_value n (elem_text ind' (snd p) @ rest) = Some (jsonify (snd p), rest)"
        by (simp add: elem_val_def)
    next
      show "length (join (0x2C # 0x0A # ind') (map (member_text ind') qs) @ 0x0A # ind @ 0x7D # rest) \<le> m"
        using lenm by (simp add: X_def)
    qed
    finally show ?thesis
      unfolding whole by (simp add: js)
  qed
qed

text \<open>\<^verbatim>\<open>JSON.parse(JSON.stringify(v, null, 2))\<close> is the document that \<open>v\<close> denotes.\<close>

lemma JSON_parse_stringify:
  assumes "JSON_stringify v = Some t"
  shows "JSON_parse t = Normal (jsonify v)"
proof -
  from assms have v: "v \<noteq> JUndefined" and t: "t = elem_text [] v"
    by (auto simp: JSON_stringify_def elem_text_def)
  have "parse_value (length t) (elem_text [] v @ []) = Some (elem_val v, [])"
    by (rule parse_value_elem_text) (simp_all add: delim_def t)
  then show ?thesis
    using v skip_ws_elem_text [of "[]" v "[]"]
    by (simp add: JSON_parse_def t elem_val_def skip_ws_def)
qed

lemma JSON_stringify_defined: "v \<noteq> JUndefined \<Longrightarrow> \<exists>t. JSON_stringify v = Some t"
  by (cases v) (simp_all add: JSON_stringify_def)

section \<open>The order of own properties\<close>













section \<open>What the parser returns\<close>

lemma is_json_elements_iff: "is_json_elements xs \<longleftrightarrow> (\<forall>x \<in> set xs. is_json x)"
  by (induction xs) auto










section \<open>A JSON value is read back as it is\<close>

lemma is_json_defined: "is_json v \<Longrightarrow> v \<noteq> JUndefined"
  by auto



section \<open>How a patch cycle ends\<close>

lemma update_at_defined:
  "v \<noteq> JUndefined \<Longrightarrow> new \<noteq> JUndefined \<Longrightarrow> update_at v ks new \<noteq> JUndefined"
  by (cases "(v, ks, new)" rule: update_at.cases) (auto split: option.splits)

lemma is_object_defined: "is_object v \<Longrightarrow> v \<noteq> JUndefined"
  by (auto simp: is_object_def)

lemma forEach_field_is_object:
  "forEach_field fs t = Normal t' \<Longrightarrow> is_object t \<Longrightarrow> is_object t'"
proof (induction fs arbitrary: t)
  case Nil
  then show ?case by simp
next
  case (Cons f fs)
  from Cons.prems show ?case
    by (auto split: option.splits if_splits completion.splits
             dest!: is_object_Set intro: Cons.IH)
qed

lemma valid_json_stringify: "doc \<noteq> JUndefined \<Longrightarrow> valid_json (JSON_stringify doc)"
proof -
  assume "doc \<noteq> JUndefined"
  from JSON_stringify_defined [OF this] obtain t where t: "JSON_stringify doc = Some t" ..
  from JSON_parse_stringify [OF t] t show ?thesis by (simp add: valid_json_def)
qed

lemma finish_write_back:
  "finish (write_back (JSON_stringify doc) st) = (committed doc st, Normal ())"
  by (simp add: finish_def write_back_def committed_def onClose_def setEditMode_def
        setJson_def setContents_def)

lemma finish_eq: "finish st = (st\<lparr>editMode := False, closed := True\<rparr>, Normal ())"
  by (simp add: finish_def onClose_def setEditMode_def)

text \<open>How the \<^verbatim>\<open>try\<close> block ends: with an exception or a host-defined step before any
  write, with nothing to do, or with a document saved.\<close>

lemma applyEdits_try_cases:
  assumes "applyEdits_try h nodeData formState st = (st', c)"
  shows "(c \<noteq> Normal () \<and> st' = st)
       \<or> (c = Normal () \<and> (st' = st \<or> st' = st\<lparr>editMode := False, closed := True\<rparr>))
       \<or> (c = Normal () \<and> valid_json (json st)
            \<and> (\<exists>doc. doc \<noteq> JUndefined \<and> st' = committed doc st))"
proof (cases "json st")
  case None
  with assms show ?thesis by (simp add: applyEdits_try_def)
next
  case (Some raw)
  show ?thesis
  proof (cases "JSON_parse raw")
    case (Throw e)
    with assms Some show ?thesis by (auto simp: applyEdits_try_def split: if_splits)
  next
    case HostDefined
    with assms Some show ?thesis by (auto simp: applyEdits_try_def split: if_splits)
  next
    case (Normal parsed)
    define P where "P = (\<lambda>r :: State \<times> unit completion.
         (snd r \<noteq> Normal () \<and> fst r = st)
       \<or> (snd r = Normal () \<and> (fst r = st \<or> fst r = st\<lparr>editMode := False, closed := True\<rparr>))
       \<or> (snd r = Normal () \<and> valid_json (json st)
            \<and> (\<exists>doc. doc \<noteq> JUndefined \<and> fst r = committed doc st)))"
    have v: "valid_json (json st)" by (simp add: valid_json_def Some Normal)
    have p: "parsed \<noteq> JUndefined" using Normal by (rule JSON_parse_defined)
    have thrown: "P (st, Throw e)" for e by (simp add: P_def)
    have host: "P (st, HostDefined)" by (simp add: P_def)
    have unchanged: "P (finish st)" by (simp add: P_def finish_eq)
    have saved: "P (finish (write_back (JSON_stringify doc) st))" if "doc \<noteq> JUndefined" for doc
      using that v by (auto simp: P_def finish_write_back)
    have s1: "P (finish (write_back (JSON_stringify (update_at parsed ks t')) st))"
      if "Set t k x = Normal t'" for t k x t' ks
      using that by (intro saved update_at_defined p is_object_defined) (rule is_object_Set)
    have s2: "P (finish (write_back (JSON_stringify (update_at parsed ks t')) st))"
      if "forEach_field fs t = Normal t'" "is_object t" for t fs t' ks
      using that by (intro saved update_at_defined p is_object_defined) (rule forEach_field_is_object)
    let ?path = "node_path nodeData"
    have "P (applyEdits_try h nodeData formState st)"
    proof (cases "reduce_get h (Normal parsed) (butlast ?path)")
      case (Throw e)
      then show ?thesis by (simp add: applyEdits_try_parsed [OF Some Normal] thrown)
    next
      case HostDefined
      then show ?thesis by (simp add: applyEdits_try_parsed [OF Some Normal] host)
    next
      case parent: (Normal parent)
      show ?thesis
      proof (cases "isSingleUnnamed nodeData")
        case True
        let ?newVal = "parseValue (case formState of [] \<Rightarrow> [] | f # fs \<Rightarrow> fvalue f)"
        show ?thesis
        proof (cases "Set parent (ToPropertyKey (last ?path)) ?newVal")
          case (Normal parent')
          with True parent show ?thesis
            by (simp add: applyEdits_try_parsed [OF Some \<open>JSON_parse raw = Normal parsed\<close>]
                  Let_def unchanged s1 saved [OF parseValue_defined])
        next
          case (Throw e)
          with True parent show ?thesis
            by (simp add: applyEdits_try_parsed [OF Some \<open>JSON_parse raw = Normal parsed\<close>]
                  Let_def unchanged thrown saved [OF parseValue_defined])
        next
          case HostDefined
          with True parent show ?thesis
            by (simp add: applyEdits_try_parsed [OF Some \<open>JSON_parse raw = Normal parsed\<close>]
                  Let_def unchanged host saved [OF parseValue_defined])
        qed
      next
        case False
        show ?thesis
        proof (cases "if ?path = [] then Normal parsed else reduce_get h (Normal parsed) ?path")
          case (Throw e)
          with False parent show ?thesis
            by (simp add: applyEdits_try_parsed [OF Some \<open>JSON_parse raw = Normal parsed\<close>] thrown)
        next
          case HostDefined
          with False parent show ?thesis
            by (simp add: applyEdits_try_parsed [OF Some \<open>JSON_parse raw = Normal parsed\<close>] host)
        next
          case target: (Normal target)
          show ?thesis
          proof (cases "is_object target")
            case no: False
            with False parent target show ?thesis
              by (simp add: applyEdits_try_parsed [OF Some \<open>JSON_parse raw = Normal parsed\<close>] unchanged)
          next
            case True
            with False parent target s2 [OF _ True, of formState] show ?thesis
              by (cases "forEach_field formState target")
                 (simp_all add: applyEdits_try_parsed [OF Some \<open>JSON_parse raw = Normal parsed\<close>]
                    thrown host)
          qed
        qed
      qed
    qed
    with assms show ?thesis by (simp add: P_def)
  qed
qed

section \<open>A form that was not edited\<close>



lemma is_json_element: "is_json (JArr xs ps) \<Longrightarrow> i < length xs \<Longrightarrow> is_json (xs ! i)"
  by (auto simp: is_json_elements_iff)


lemma own_value_is_object: "own_value t k = Some v \<Longrightarrow> is_object t"
  by (cases t) (simp_all add: is_object_def)













chapter \<open>The claims\<close>

section \<open>The value coercer\<close>

text \<open>
  C7. The value coercer is total. For every input string it first attempts strict JSON
  parsing: if the string parses, the coercer returns the parsed value, and if parsing
  fails (the only failure is a syntax error) it returns the input itself as a string.
  It always produces a value and never raises. The examples of the specification:
  \<^verbatim>\<open>123\<close>, \<^verbatim>\<open>true\<close>, \<^verbatim>\<open>null\<close>, \<^verbatim>\<open>3.14\<close>, \<^verbatim>\<open>"x"\<close>, \<^verbatim>\<open>[1,2]\<close> and \<^verbatim>\<open>{"x":1}\<close> become
  the number, boolean, null, number, string, array and object they denote, and
  \<^verbatim>\<open>hello\<close> stays the string \<^verbatim>\<open>hello\<close>.
\<close>

theorem parseValue_total:
  "((\<exists>v. JSON_parse raw = Normal v \<and> parseValue raw = v)
      \<or> (JSON_parse raw = Throw SyntaxError \<and> parseValue raw = JStr raw))
   \<and> parseValue raw \<noteq> JUndefined
   \<and> parseValue (str ''123'') = JNum (Dec 123 0)
   \<and> parseValue (str ''true'') = JBool True
   \<and> parseValue (str ''null'') = JNull
   \<and> parseValue (str ''3.14'') = JNum (Dec 314 (- 2))
   \<and> parseValue (str ''\"x\"'') = JStr (str ''x'')
   \<and> parseValue (str ''[1,2]'') = JArr [JNum (Dec 1 0), JNum (Dec 2 0)] []
   \<and> parseValue (str ''{\"x\":1}'') = JObj [(str ''x'', JNum (Dec 1 0))]
   \<and> parseValue (str ''hello'') = JStr (str ''hello'')"
proof -
  have general: "(\<exists>v. JSON_parse raw = Normal v \<and> parseValue raw = v)
      \<or> (JSON_parse raw = Throw SyntaxError \<and> parseValue raw = JStr raw)"
    using JSON_parse_cases [of raw] by (auto simp: parseValue_def)
  have defined: "parseValue raw \<noteq> JUndefined"
    using general JSON_parse_defined by auto
  have e1: "parseValue (str ''123'') = JNum (Dec 123 0)" by code_simp
  have e2: "parseValue (str ''true'') = JBool True" by code_simp
  have e3: "parseValue (str ''null'') = JNull" by code_simp
  have e4: "parseValue (str ''3.14'') = JNum (Dec 314 (- 2))" by code_simp
  have e5: "parseValue (str ''\"x\"'') = JStr (str ''x'')" by code_simp
  have e6: "parseValue (str ''[1,2]'') = JArr [JNum (Dec 1 0), JNum (Dec 2 0)] []" by code_simp
  have e7: "parseValue (str ''{\"x\":1}'') = JObj [(str ''x'', JNum (Dec 1 0))]" by code_simp
  have e8: "parseValue (str ''hello'') = JStr (str ''hello'')" by code_simp
  from general defined e1 e2 e3 e4 e5 e6 e7 e8 show ?thesis by blast
qed

text \<open>The fallback at a text that does not parse.\<close>

theorem parseValue_total_witness:
  "JSON_parse (str ''1x'') = Throw SyntaxError \<and> parseValue (str ''1x'') = JStr (str ''1x'')"
proof -
  have "JSON_parse (str ''1x'') = Throw SyntaxError" by code_simp
  with parseValue_total [of "str ''1x''"] show ?thesis by simp
qed

section \<open>A document that is missing or does not parse\<close>

text \<open>
  C5, as the claim states it, fails at the empty text: \<^verbatim>\<open>raw ? JSON.parse(raw) :
  undefined\<close> makes \<^verbatim>\<open>parsed\<close> undefined and \<^verbatim>\<open>if (parsed === undefined) return;\<close> leaves
  without an alert. Nothing is surfaced: the state after the call is the state before
  it, with no alert.
\<close>

theorem applyEdits_empty_text_silent:
  "applyEdits es_host None [] (st_of []) = Normal (st_of []) \<and> alerts (st_of []) = []"
  by (simp add: applyEdits_def applyEdits_try_def st_of_def)

text \<open>
  C5, amended. For every call of applyEdits where the document text is not empty and
  fails to parse as JSON, the operation aborts with no mutation of the document and the
  failure is surfaced to the caller (the alert); where the text is missing or empty,
  the operation returns at once: no mutation, and no failure is surfaced.
\<close>

theorem applyEdits_invalid_document:
  "(json st = Some raw \<and> raw \<noteq> [] \<and> JSON_parse raw = Throw e
      \<longrightarrow> applyEdits h nodeData formState st = Normal (st\<lparr>alerts := alerts st @ [e]\<rparr>))
   \<and> (json st = None \<or> json st = Some []
      \<longrightarrow> applyEdits h nodeData formState st = Normal st)"
  by (auto simp: applyEdits_def applyEdits_try_def alert_def)

theorem applyEdits_invalid_document_witness:
  "applyEdits es_host None [] (st_of (str ''{\"a\":''))
     = Normal ((st_of (str ''{\"a\":''))\<lparr>alerts := [SyntaxError]\<rparr>)
   \<and> applyEdits es_host None [] (st_of []) = Normal (st_of [])"
proof -
  have p: "JSON_parse (str ''{\"a\":'') = Throw SyntaxError" by code_simp
  have n: "str ''{\"a\":'' \<noteq> []" by (simp add: str_def)
  from applyEdits_invalid_document
         [of "st_of (str ''{\"a\":'')" "str ''{\"a\":''" SyntaxError es_host None "[]"]
       applyEdits_invalid_document [of "st_of []" "[]" SyntaxError es_host None "[]"] p n
  show ?thesis by (simp add: st_of_def)
qed

section \<open>A path that does not resolve\<close>



section \<open>The path formatter\<close>

lemma join_brackets_Cons:
  "str ''['' @ join (str '']['') (x # xs) @ str '']''
     = concat (map (\<lambda>x. str ''['' @ x @ str '']'') (x # xs))"
proof (induction xs arbitrary: x)
  case Nil
  show ?case by simp
next
  case (Cons y ys)
  from Cons [of y] show ?case by (simp add: str_def)
qed

lemma join_brackets:
  "xs \<noteq> [] \<Longrightarrow>
   str ''['' @ join (str '']['') xs @ str '']'' = concat (map (\<lambda>x. str ''['' @ x @ str '']'') xs)"
  by (cases xs) (simp, simp only: join_brackets_Cons)

lemma segment_text_bracketed: "str ''['' @ segment_text s @ str '']'' = bracketed s"
proof (cases s)
  case (Index i)
  have "unat i < 2 ^ 32" using unsigned_less [of i] by simp
  then have "unat i < 10 ^ 21" by simp
  then show ?thesis
    by (simp add: Index segment_text_def bracketed_def Number_toString_nat)
next
  case (Key k)
  then show ?thesis by (simp add: segment_text_def bracketed_def str_def)
qed

text \<open>
  C9. The path formatter maps the empty path (and an absent path) to \<^verbatim>\<open>$\<close>, and every
  non-empty path to \<^verbatim>\<open>$\<close> followed by each segment in order wrapped in brackets, an
  integer segment rendered as bare digits and a string segment as a double-quoted
  literal.
\<close>

theorem jsonPathToString_format:
  "jsonPathToString None = str ''$''
   \<and> jsonPathToString (Some []) = str ''$''
   \<and> jsonPathToString (Some (s # p)) = str ''$'' @ concat (map bracketed (s # p))"
proof -
  have "str ''['' @ join (str '']['') (map segment_text (s # p)) @ str '']''
      = concat (map (\<lambda>x. str ''['' @ x @ str '']'') (map segment_text (s # p)))"
    by (rule join_brackets) simp
  also have "\<dots> = concat (map bracketed (s # p))"
    by (simp only: map_map o_def segment_text_bracketed)
  finally have "str ''$['' @ join (str '']['') (map segment_text (s # p)) @ str '']''
      = str ''$'' @ concat (map bracketed (s # p))"
    by (simp add: str_def)
  then show ?thesis by (simp add: jsonPathToString_def)
qed

text \<open>The examples of the specification.\<close>

theorem jsonPathToString_format_witness:
  "jsonPathToString (Some [Key (str ''customer''), Index 0]) = str ''$[\"customer\"][0]''
   \<and> jsonPathToString (Some [Key (str ''customer''), Index 0, Key (str ''name'')])
       = str ''$[\"customer\"][0][\"name\"]''"
proof -
  have a: "str ''$'' @ concat (map bracketed [Key (str ''customer''), Index 0]) = str ''$[\"customer\"][0]''"
    by code_simp
  have b: "str ''$'' @ concat (map bracketed [Key (str ''customer''), Index 0, Key (str ''name'')])
       = str ''$[\"customer\"][0][\"name\"]''"
    by code_simp
  from jsonPathToString_format [of "Key (str ''customer'')" "[Index 0]"]
       jsonPathToString_format [of "Key (str ''customer'')" "[Index 0, Key (str ''name'')]"] a b
  show ?thesis by simp
qed

section \<open>Patching an object-like node\<close>

text \<open>
  C2, as the claim states it, fails at an entry whose key is the empty string: the key
  is not \<^verbatim>\<open>null\<close>, but \<^verbatim>\<open>if (f.key)\<close> skips it. The document \<^verbatim>\<open>{"":0}\<close>, patched at the
  root with the entry \<^verbatim>\<open>{key: "", value: "1"}\<close>, keeps the member \<^verbatim>\<open>"": 0\<close>, although the
  entry coerces to the number 1.
\<close>

theorem applyEdits_skips_empty_key:
  "applyEdits es_host (Some empty_key_node) [\<lparr>fkey = Some [], fvalue = str ''1''\<rparr>]
       (st_of (str ''{\"\":0}''))
     = Normal ((st_of (str ''{\"\":0}''))
                 \<lparr>json := Some (unlines [''{'', ''  \"\": 0'', ''}'']),
                  contents := Some (unlines [''{'', ''  \"\": 0'', ''}'']),
                  editMode := False, closed := True\<rparr>)
   \<and> parseValue (str ''1'') = JNum (Dec 1 0)"
  by code_simp

text \<open>
  C2, amended. For every object-like node whose path resolves to an object or an array,
  applyEdits assigns the coerced value for every FormState entry whose key is neither
  \<^verbatim>\<open>null\<close> nor empty (the last entry of a key wins), and every other key/value already
  present in the target, nested arrays and objects included, is left unchanged; the
  new document is the old one with the target replaced by the patched target. Left
  aside are an entry keyed \<^verbatim>\<open>__proto__\<close> and, on an array, an entry keyed \<^verbatim>\<open>length\<close> and
  the length itself.
\<close>

theorem applyEdits_patches_target:
  assumes "json st = Some raw" and "JSON_parse raw = Normal parsed"
    and "\<not> isSingleUnnamed nodeData"
    and "reduce_get h (Normal parsed) (node_path nodeData) = Normal target"
    and "is_object target"
    and "last_field formState proto_key = None"
    and "is_array target \<longrightarrow> last_field formState (str ''length'') = None"
  shows "\<exists>target'.
           applyEdits h nodeData formState st =
             Normal (committed (update_at parsed (map ToPropertyKey (node_path nodeData)) target') st)
           \<and> patched h formState target target'"
proof -
  from forEach_field_patched [OF assms(5,6), of h] assms(7) obtain t' where
    "forEach_field formState target = Normal t'" "patched h formState target t'" by blast
  with applyEdits_object_like [OF assms(1-4), of formState] assms(5) show ?thesis by auto
qed

text \<open>The example of the specification: \<^verbatim>\<open>{"customer":{"name":"Bob","age":30}}\<close> patched
  at \<^verbatim>\<open>["customer"]\<close> with \<^verbatim>\<open>age\<close> 31.\<close>

theorem applyEdits_patches_target_witness:
  "applyEdits es_host (Some customer_node) [\<lparr>fkey = Some (str ''age''), fvalue = str ''31''\<rparr>]
       (st_of customer_doc)
     = Normal ((st_of customer_doc)\<lparr>json := Some customer_patched, contents := Some customer_patched,
                                    editMode := False, closed := True\<rparr>)
   \<and> (\<exists>target'.
         patched es_host [\<lparr>fkey = Some (str ''age''), fvalue = str ''31''\<rparr>]
           (JObj [(str ''name'', JStr (str ''Bob'')), (str ''age'', JNum (Dec 3 1))]) target')"
proof -
  let ?fs = "[\<lparr>fkey = Some (str ''age''), fvalue = str ''31''\<rparr>]"
  let ?target = "JObj [(str ''name'', JStr (str ''Bob'')), (str ''age'', JNum (Dec 3 1))]"
  have j: "json (st_of customer_doc) = Some customer_doc" by (simp add: st_of_def)
  have p: "JSON_parse customer_doc = Normal (JObj [(str ''customer'', ?target)])" by code_simp
  have s: "\<not> isSingleUnnamed (Some customer_node)" by code_simp
  have w: "reduce_get es_host (Normal (JObj [(str ''customer'', ?target)]))
             (node_path (Some customer_node)) = Normal ?target" by code_simp
  have o: "is_object ?target" by code_simp
  have k1: "last_field ?fs proto_key = None" by code_simp
  have k2: "is_array ?target \<longrightarrow> last_field ?fs (str ''length'') = None" by code_simp
  from applyEdits_patches_target [OF j p s w o k1 k2]
  have ex: "\<exists>target'. patched es_host ?fs ?target target'" by blast
  have run: "applyEdits es_host (Some customer_node) ?fs (st_of customer_doc)
     = Normal ((st_of customer_doc)\<lparr>json := Some customer_patched, contents := Some customer_patched,
                                    editMode := False, closed := True\<rparr>)"
    by code_simp
  from run ex show ?thesis by blast
qed

section \<open>Arrays, null and primitives as targets\<close>

text \<open>
  C10, as the claim states it, fails at an entry keyed \<^verbatim>\<open>length\<close>: on an array the
  assignment sets the length, and a value that is not a valid length throws a
  \<^verbatim>\<open>RangeError\<close>. With the target \<^verbatim>\<open>[1,2]\<close> and the entry \<^verbatim>\<open>{key: "length", value:
  "1.5"}\<close> nothing is assigned and nothing is written; the error reaches the alert.
\<close>

theorem applyEdits_array_length_rejected:
  "applyEdits es_host (Some (at_key ''a''))
       [\<lparr>fkey = Some (str ''length''), fvalue = str ''1.5''\<rparr>] (st_of list_doc)
     = Normal ((st_of list_doc)\<lparr>alerts := [RangeError]\<rparr>)
   \<and> reduce_get es_host (Normal (JObj [(str ''a'', JArr [JNum (Dec 1 0), JNum (Dec 2 0)] []),
                                         (str ''n'', JNull)]))
         (node_path (Some (at_key ''a'')))
       = Normal (JArr [JNum (Dec 1 0), JNum (Dec 2 0)] [])"
  by code_simp

text \<open>
  C10, amended. In the object-like branch of applyEdits the container check is
  truthiness plus \<^verbatim>\<open>typeof === "object"\<close>: for every path that resolves to an array the
  array is accepted as a patch target, and where no entry is keyed \<^verbatim>\<open>length\<close> or
  \<^verbatim>\<open>__proto__\<close>, each entry with a truthy key is assigned as a string-keyed property on
  that array (the last entry of a key wins; an array index is such a key and names an
  element) and the document is written back; a target of \<^verbatim>\<open>undefined\<close>, \<^verbatim>\<open>null\<close> or any
  primitive makes the operation a no-op that closes the modal.
\<close>

theorem applyEdits_array_target:
  assumes "json st = Some raw" and "JSON_parse raw = Normal parsed"
    and "\<not> isSingleUnnamed nodeData"
    and "reduce_get h (Normal parsed) (node_path nodeData) = Normal target"
  shows "(is_array target \<and> last_field formState (str ''length'') = None
            \<and> last_field formState proto_key = None
          \<longrightarrow> (\<exists>target'.
                applyEdits h nodeData formState st =
                  Normal (committed (update_at parsed (map ToPropertyKey (node_path nodeData)) target') st)
                \<and> is_array target'
                \<and> (\<forall>k v. last_field formState k = Some v \<longrightarrow> Get h target' k = Normal (parseValue v))))
       \<and> (\<not> is_object target
          \<longrightarrow> applyEdits h nodeData formState st = Normal (st\<lparr>editMode := False, closed := True\<rparr>))"
proof (intro conjI impI)
  assume a: "is_array target \<and> last_field formState (str ''length'') = None
            \<and> last_field formState proto_key = None"
  then have o: "is_object target" by (cases target) (simp_all add: is_array_def is_object_def)
  from a forEach_field_patched [OF o, of formState h] obtain t' where
    t': "forEach_field formState target = Normal t'" "is_array t' = is_array target"
        "patched h formState target t'" by blast
  have "\<forall>k v. last_field formState k = Some v \<longrightarrow> Get h t' k = Normal (parseValue v)"
  proof (intro allI impI)
    fix k v
    assume l: "last_field formState k = Some v"
    with a have "k \<noteq> str ''length''" by auto
    with t'(3) l show "Get h t' k = Normal (parseValue v)" by (simp add: patched_def)
  qed
  with applyEdits_object_like [OF assms, of formState] o t' a
  show "\<exists>target'.
          applyEdits h nodeData formState st =
            Normal (committed (update_at parsed (map ToPropertyKey (node_path nodeData)) target') st)
          \<and> is_array target'
          \<and> (\<forall>k v. last_field formState k = Some v \<longrightarrow> Get h target' k = Normal (parseValue v))"
    by auto
next
  assume "\<not> is_object target"
  with applyEdits_object_like [OF assms, of formState]
  show "applyEdits h nodeData formState st = Normal (st\<lparr>editMode := False, closed := True\<rparr>)"
    by simp
qed

text \<open>An array target with an extra property and an element past its end, and a
  \<^verbatim>\<open>null\<close> target.\<close>

theorem applyEdits_array_target_witness:
  "(\<exists>target'.
      applyEdits es_host (Some (at_key ''a'')) list_form (st_of list_doc) =
        Normal (committed
          (update_at (JObj [(str ''a'', JArr [JNum (Dec 1 0), JNum (Dec 2 0)] []), (str ''n'', JNull)])
             [str ''a''] target') (st_of list_doc))
      \<and> is_array target'
      \<and> Get es_host target' (str ''x'') = Normal (JNum (Dec 1 0))
      \<and> Get es_host target' (str ''3'') = Normal (JBool True))
   \<and> applyEdits es_host (Some (at_key ''n'')) list_form (st_of list_doc)
       = Normal ((st_of list_doc)\<lparr>editMode := False, closed := True\<rparr>)
   \<and> applyEdits es_host (Some (at_key ''a'')) list_form (st_of list_doc)
       = Normal ((st_of list_doc)
           \<lparr>json := Some (unlines [''{'', ''  \"a\": ['', ''    1,'', ''    2,'', ''    null,'',
                                     ''    true'', ''  ],'', ''  \"n\": null'', ''}'']),
            contents := Some (unlines [''{'', ''  \"a\": ['', ''    1,'', ''    2,'', ''    null,'',
                                     ''    true'', ''  ],'', ''  \"n\": null'', ''}'']),
            editMode := False, closed := True\<rparr>)"
proof -
  let ?doc = "JObj [(str ''a'', JArr [JNum (Dec 1 0), JNum (Dec 2 0)] []), (str ''n'', JNull)]"
  have j: "json (st_of list_doc) = Some list_doc" by (simp add: st_of_def)
  have p: "JSON_parse list_doc = Normal ?doc" by code_simp
  have s1: "\<not> isSingleUnnamed (Some (at_key ''a''))" by code_simp
  have s2: "\<not> isSingleUnnamed (Some (at_key ''n''))" by code_simp
  have w1: "reduce_get es_host (Normal ?doc) (node_path (Some (at_key ''a'')))
              = Normal (JArr [JNum (Dec 1 0), JNum (Dec 2 0)] [])" by code_simp
  have w2: "reduce_get es_host (Normal ?doc) (node_path (Some (at_key ''n''))) = Normal JNull"
    by code_simp
  have a: "is_array (JArr [JNum (Dec 1 0), JNum (Dec 2 0)] [])
           \<and> last_field list_form (str ''length'') = None \<and> last_field list_form proto_key = None"
    by code_simp
  have n: "\<not> is_object JNull" by code_simp
  have l1: "last_field list_form (str ''x'') = Some (str ''1'')" by code_simp
  have l2: "last_field list_form (str ''3'') = Some (str ''true'')" by code_simp
  have v1: "parseValue (str ''1'') = JNum (Dec 1 0)" by code_simp
  have v2: "parseValue (str ''true'') = JBool True" by code_simp
  have m: "map ToPropertyKey (node_path (Some (at_key ''a''))) = [str ''a'']" by code_simp
  from applyEdits_array_target [OF j p s1 w1, of list_form] a obtain t' where
    t': "applyEdits es_host (Some (at_key ''a'')) list_form (st_of list_doc) =
           Normal (committed (update_at ?doc (map ToPropertyKey (node_path (Some (at_key ''a'')))) t')
                     (st_of list_doc))"
        "is_array t'"
        "\<forall>k v. last_field list_form k = Some v \<longrightarrow> Get es_host t' k = Normal (parseValue v)"
    by blast
  from t'(3) l1 l2 v1 v2 have g: "Get es_host t' (str ''x'') = Normal (JNum (Dec 1 0))"
      "Get es_host t' (str ''3'') = Normal (JBool True)" by auto
  from applyEdits_array_target [OF j p s2 w2, of list_form] n
  have noop: "applyEdits es_host (Some (at_key ''n'')) list_form (st_of list_doc)
       = Normal ((st_of list_doc)\<lparr>editMode := False, closed := True\<rparr>)" by simp
  have run: "applyEdits es_host (Some (at_key ''a'')) list_form (st_of list_doc)
       = Normal ((st_of list_doc)
           \<lparr>json := Some (unlines [''{'', ''  \"a\": ['', ''    1,'', ''    2,'', ''    null,'',
                                     ''    true'', ''  ],'', ''  \"n\": null'', ''}'']),
            contents := Some (unlines [''{'', ''  \"a\": ['', ''    1,'', ''    2,'', ''    null,'',
                                     ''    true'', ''  ],'', ''  \"n\": null'', ''}'']),
            editMode := False, closed := True\<rparr>)"
    by code_simp
  from t'(1,2) g noop run m show ?thesis by (simp only:) blast
qed

section \<open>The row normaliser\<close>

lemma upsert_define_own:
  "array_index k = None \<Longrightarrow> define_own k v m = upsert k v m"
proof (induction m)
  case Nil
  then show ?case by (simp add: define_own_def)
next
  case (Cons p m)
  obtain k' x where p: "p = (k', x)" by (cases p)
  from Cons have ih: "define_own k v m = upsert k v m" by simp
  show ?case
  proof (cases "k' = k")
    case True
    with p show ?thesis by (simp add: define_own_def)
  next
    case False
    with p ih Cons.prems show ?thesis
      by (auto simp: define_own_def split: if_splits)
  qed
qed

lemma forEach_row_upsert:
  assumes "plain_keys rows"
  shows "forEach_row rows (JObj m) =
     Normal (JObj (foldl (\<lambda>m row. if is_scalar_row row \<and> \<not> falsy_key (rkey row)
                      then upsert (the (rkey row)) (rvalue row) m
                      else m) m rows))"
  using assms
proof (induction rows arbitrary: m)
  case Nil
  show ?case by simp
next
  case (Cons row rows)
  from Cons.prems have pk: "plain_keys rows" by (simp add: plain_keys_def)
  show ?case
  proof (cases "is_scalar_row row \<and> \<not> falsy_key (rkey row)")
    case False
    then show ?thesis
      using Cons.IH [OF pk] by (auto simp: falsy_key_def split: option.splits)
  next
    case True
    then obtain k where k: "rkey row = Some k" "k \<noteq> []" by (auto simp: falsy_key_def)
    with True Cons.prems have "array_index k = None" "k \<noteq> proto_key"
      by (auto simp: plain_keys_def)
    with k True show ?thesis
      using Cons.IH [OF pk] by (simp add: upsert_define_own falsy_key_def)
  qed
qed

text \<open>
  C8, as the claim states it, fails at a scalar row whose key is the empty string: the
  reference inserts the row, \<^verbatim>\<open>if (row.key)\<close> drops it.
\<close>

theorem normalizeNodeData_drops_empty_key:
  "normalizeNodeData empty_key_rows = Normal (Some (unlines [''{'', ''  \"a\": 2'', ''}'']))
   \<and> normalize_spec empty_key_rows
       = Normal (Some (unlines [''{'', ''  \"\": 1,'', ''  \"a\": 2'', ''}'']))"
  by code_simp

text \<open>
  C8, amended. The row normaliser equals this reference: for every row list (in which
  no scalar row is keyed by an array index or by \<^verbatim>\<open>__proto__\<close>), an empty input yields the
  empty object \<^verbatim>\<open>{}\<close>; exactly one row whose key is \<^verbatim>\<open>null\<close> or empty yields that row's
  value as it is (not wrapped); otherwise it yields the mapping built by inserting
  \<^verbatim>\<open>key: value\<close> for every scalar row whose key is neither \<^verbatim>\<open>null\<close> nor empty (array and
  object rows dropped), in row order, with duplicate keys overwritten so that the last
  occurrence wins.
\<close>

theorem normalizeNodeData_amended:
  assumes "plain_keys rows"
  shows "normalizeNodeData rows = normalize_amended rows"
proof (cases "rows = []")
  case True
  have "JSON_stringify (JObj []) = Some (str ''{}'')" by code_simp
  with True show ?thesis by (simp add: normalizeNodeData_def normalize_amended_def)
next
  case False
  then have hd: "rows ! 0 = hd rows" by (simp add: hd_conv_nth)
  from False show ?thesis
    by (simp add: normalizeNodeData_def normalize_amended_def hd falsy_key_def [symmetric]
          forEach_row_upsert [OF assms] amended_mapping_def)
qed

text \<open>Four rows with a duplicate key and an object row, a single unnamed row, and no
  rows.\<close>

theorem normalizeNodeData_amended_witness:
  "normalizeNodeData mixed_rows
     = Normal (Some (unlines [''{'', ''  \"b\": true,'', ''  \"a\": \"x\"'', ''}'']))
   \<and> normalizeNodeData unnamed_row = Normal (Some (str ''Bob''))
   \<and> normalizeNodeData [] = Normal (Some (str ''{}''))"
proof -
  have p1: "plain_keys mixed_rows" by code_simp
  have p2: "plain_keys unnamed_row" by code_simp
  have p3: "plain_keys []" by (simp add: plain_keys_def)
  have a1: "normalize_amended mixed_rows
     = Normal (Some (unlines [''{'', ''  \"b\": true,'', ''  \"a\": \"x\"'', ''}'']))" by code_simp
  have a2: "normalize_amended unnamed_row = Normal (Some (str ''Bob''))" by code_simp
  have a3: "normalize_amended [] = Normal (Some (str ''{}''))" by code_simp
  from normalizeNodeData_amended [OF p1] normalizeNodeData_amended [OF p2]
       normalizeNodeData_amended [OF p3] a1 a2 a3
  show ?thesis by simp
qed

section \<open>Replacing the whole document\<close>



section \<open>No partial write\<close>

text \<open>
  C4. Every patch cycle ends in one of four ways: it fails, and then the state is the
  state before with the alert added; it has nothing to do, and then the state is
  unchanged or the modal has only left edit mode and closed; or it saves, and then the
  document was valid JSON before, the text saved is valid JSON, and both stores hold
  that one text. So a document that is valid JSON before a cycle is valid JSON after
  it, a failed cycle leaves the document text and the file contents as they were, and
  no state is reached in which a patch is written in part: the patched value is
  complete before the stores are written.
\<close>

theorem applyEdits_atomic:
  assumes "applyEdits h nodeData formState st = Normal st'"
  shows "((\<exists>e. st' = alert e st)
          \<or> st' = st \<or> st' = st\<lparr>editMode := False, closed := True\<rparr>
          \<or> (\<exists>doc. st' = committed doc st \<and> valid_json (json st) \<and> valid_json (json st')
                \<and> contents st' = json st'))
       \<and> (valid_json (json st) \<longrightarrow> valid_json (json st'))
       \<and> (alerts st' \<noteq> alerts st \<longrightarrow> json st' = json st \<and> contents st' = contents st)"
proof -
  obtain s c where t: "applyEdits_try h nodeData formState st = (s, c)"
    by (cases "applyEdits_try h nodeData formState st")
  from assms t have "c \<noteq> HostDefined" by (auto simp: applyEdits_def)
  with applyEdits_try_cases [OF t] assms t
  consider (failed) e where "st' = alert e st"
    | (idle) "st' = st \<or> st' = st\<lparr>editMode := False, closed := True\<rparr>"
    | (saved) doc where "doc \<noteq> JUndefined" "st' = committed doc st" "valid_json (json st)"
    by (cases c) (auto simp: applyEdits_def)
  then show ?thesis
  proof cases
    case failed
    then show ?thesis by (auto simp: alert_def)
  next
    case idle
    then show ?thesis by auto
  next
    case saved
    from valid_json_stringify [OF saved(1)] saved(2,3) show ?thesis
      by (auto simp: committed_def)
  qed
qed

text \<open>A cycle that saves, the customer example, and a cycle that fails, the
  \<^verbatim>\<open>length\<close> of an array set to 1.5.\<close>

theorem applyEdits_atomic_witness:
  "applyEdits es_host (Some customer_node) [\<lparr>fkey = Some (str ''age''), fvalue = str ''31''\<rparr>]
       (st_of customer_doc)
     = Normal ((st_of customer_doc)\<lparr>json := Some customer_patched, contents := Some customer_patched,
                                    editMode := False, closed := True\<rparr>)
   \<and> valid_json (Some customer_doc) \<and> valid_json (Some customer_patched)
   \<and> applyEdits es_host (Some (at_key ''a'')) [\<lparr>fkey = Some (str ''length''), fvalue = str ''1.5''\<rparr>]
       (st_of list_doc)
     = Normal ((st_of list_doc)\<lparr>alerts := [RangeError]\<rparr>)"
proof -
  let ?fs = "[\<lparr>fkey = Some (str ''age''), fvalue = str ''31''\<rparr>]"
  let ?st' = "(st_of customer_doc)\<lparr>json := Some customer_patched, contents := Some customer_patched,
                                    editMode := False, closed := True\<rparr>"
  have run: "applyEdits es_host (Some customer_node) ?fs (st_of customer_doc) = Normal ?st'"
    by code_simp
  have before: "valid_json (json (st_of customer_doc))" by code_simp
  have fails: "applyEdits es_host (Some (at_key ''a''))
       [\<lparr>fkey = Some (str ''length''), fvalue = str ''1.5''\<rparr>] (st_of list_doc)
     = Normal ((st_of list_doc)\<lparr>alerts := [RangeError]\<rparr>)"
    by code_simp
  from applyEdits_atomic [OF run] before have "valid_json (json ?st')" by blast
  with run before fails show ?thesis by (simp add: st_of_def)
qed

section \<open>The round trip of a form that was not edited\<close>




end
